theory Spec2Isabelle
  imports Main "HOL-Library.Word"
begin

unbundle bit_operations_syntax

section \<open>IR types, functions and calling conventions\<close>

text \<open>
  The fragment of the IR type language that \<open>CallConv::FnType\<close> builds and that
  \<open>CallConv::FromFunction\<close> inspects. Types of one context are uniqued, so the pointer
  comparison \<open>fn_ty != hunch.FnType(...)\<close> of the source is structural equality here.
  \<open>PointerTy t a\<close> is a pointer to \<open>t\<close> in address space \<open>a\<close>.
\<close>

datatype Type =
    VoidTy
  | IntegerTy nat
  | PointerTy Type nat
  | StructTy "Type list"
  | OtherTy nat

datatype FunctionType = FunctionType (getReturnType: Type) (params: "Type list") (isVarArg: bool)

datatype CallingConvID = CC_C | CC_HHVM | CC_Other nat

record Function =
  getCallingConv :: CallingConvID
  getFunctionType :: FunctionType
  getAttributes :: nat

definition arg_size :: "Function \<Rightarrow> nat" where
  "arg_size fn = length (params (getFunctionType fn))"

datatype CallConv = INVALID | SPTR | HHVM

fun isPointerTy :: "Type \<Rightarrow> bool" where
  "isPointerTy (PointerTy t a) = True"
| "isPointerTy t = False"

fun getPointerAddressSpace :: "Type \<Rightarrow> nat" where
  "getPointerAddressSpace (PointerTy t a) = a"
| "getPointerAddressSpace t = 0"

definition i64 :: Type where
  "i64 = IntegerTy 64"

definition i8p :: "nat \<Rightarrow> Type" where
  "i8p sptr_addrspace = PointerTy (IntegerTy 8) sptr_addrspace"

text \<open>\<open>CallConv::FnType\<close>; the \<open>default\<close> branch returns \<open>nullptr\<close>, here \<open>None\<close>.\<close>

fun FnType :: "CallConv \<Rightarrow> nat \<Rightarrow> FunctionType option" where
  "FnType SPTR sptr_addrspace = Some (FunctionType VoidTy [i8p sptr_addrspace] False)"
| "FnType HHVM sptr_addrspace =
     Some (FunctionType
       (StructTy [i64, i64, i64, i64, i64, i64, i64, i64, i64, i64, i64, i64, i64, i64])
       [i64, i8p sptr_addrspace, i64, i64, i64, i64,
        i64, i64, i64, i64, i64, i64,
        i64, i64] False)"
| "FnType INVALID sptr_addrspace = None"

fun FnCallConv :: "CallConv \<Rightarrow> CallingConvID" where
  "FnCallConv SPTR = CC_C"
| "FnCallConv HHVM = CC_HHVM"
| "FnCallConv INVALID = CC_C"

fun CpuStructParamIdx :: "CallConv \<Rightarrow> nat" where
  "CpuStructParamIdx SPTR = 0"
| "CpuStructParamIdx HHVM = 1"
| "CpuStructParamIdx INVALID = 0"

definition FromFunction :: "Function \<Rightarrow> CallConv" where
  "FromFunction fn =
    (let fn_cconv = getCallingConv fn;
         fn_ty = getFunctionType fn;
         hunch = (if fn_cconv = CC_HHVM then HHVM else SPTR)
     in if FnCallConv hunch \<noteq> fn_cconv then INVALID
        else let sptr_idx = CpuStructParamIdx hunch
          in if sptr_idx \<ge> arg_size fn then INVALID
             else let sptr_ty = params fn_ty ! sptr_idx
               in if \<not> isPointerTy sptr_ty then INVALID
                  else let sptr_addrspace = getPointerAddressSpace sptr_ty
                    in if Some fn_ty \<noteq> FnType hunch sptr_addrspace then INVALID
                       else hunch)"

text \<open>
  The resolution rule in the words of the specification: a guess from the linkage tag,
  returned exactly when the four checks hold.
\<close>

definition Resolve_guess :: "Function \<Rightarrow> CallConv" where
  "Resolve_guess fn = (if getCallingConv fn = CC_HHVM then HHVM else SPTR)"

definition Resolve_checks :: "Function \<Rightarrow> bool" where
  "Resolve_checks fn =
    (FnCallConv (Resolve_guess fn) = getCallingConv fn
     \<and> CpuStructParamIdx (Resolve_guess fn) < arg_size fn
     \<and> isPointerTy (params (getFunctionType fn) ! CpuStructParamIdx (Resolve_guess fn))
     \<and> Some (getFunctionType fn) =
         FnType (Resolve_guess fn)
           (getPointerAddressSpace
             (params (getFunctionType fn) ! CpuStructParamIdx (Resolve_guess fn))))"

definition Resolve_spec :: "Function \<Rightarrow> CallConv" where
  "Resolve_spec fn = (if Resolve_checks fn then Resolve_guess fn else INVALID)"

section \<open>Architectural registers and the host register mapper\<close>

text \<open>
  Modelled from the spec: the register class \<open>X86Reg\<close> is declared outside the visible
  sources. Only \<open>IsGP\<close>, \<open>Index\<close>, equality and the constant \<open>IP\<close> are used; a register
  is a general-purpose register with a canonical index, the instruction pointer, the
  flags register or a vector register.
\<close>

datatype X86Reg = GP nat | IP | EFLAGS | VEC nat

fun IsGP :: "X86Reg \<Rightarrow> bool" where
  "IsGP (GP i) = True"
| "IsGP r = False"

fun Index :: "X86Reg \<Rightarrow> nat" where
  "Index (GP i) = i"
| "Index (VEC i) = i"
| "Index r = 0"

datatype Facet = Facet nat

definition hhvm_is_host_reg :: "X86Reg \<Rightarrow> bool" where
  "hhvm_is_host_reg reg = (reg = IP \<or> (IsGP reg \<and> Index reg < 12))"

definition hhvm_arg_indices :: "nat list" where
  "hhvm_arg_indices = [10, 7, 6, 2, 3, 13, 5, 4, 8, 9, 11, 12]"

definition hhvm_ret_indices :: "nat list" where
  "hhvm_ret_indices = [8, 5, 4, 1, 13, 11, 3, 2, 6, 7, 9, 10]"

text \<open>
  The two table lookups. The \<open>assert(hhvm_is_host_reg(reg))\<close> of the source is the
  \<open>None\<close> result.
\<close>

definition hhvm_arg_index :: "X86Reg \<Rightarrow> nat option" where
  "hhvm_arg_index reg =
    (if \<not> hhvm_is_host_reg reg then None
     else Some (if IsGP reg \<and> Index reg < 12 then hhvm_arg_indices ! Index reg else 0))"

definition hhvm_ret_index :: "X86Reg \<Rightarrow> nat option" where
  "hhvm_ret_index reg =
    (if \<not> hhvm_is_host_reg reg then None
     else Some (if IsGP reg \<and> Index reg < 12 then hhvm_ret_indices ! Index reg else 0))"

text \<open>
  Inverse tables, read off the two permutation tables: the register whose argument slot
  (return slot) is the given index.
\<close>

definition hhvm_arg_inverse :: "nat \<Rightarrow> X86Reg option" where
  "hhvm_arg_inverse k =
    map_option GP (find (\<lambda>i. hhvm_arg_indices ! i = k) [0..<12])"

definition hhvm_ret_inverse :: "nat \<Rightarrow> X86Reg option" where
  "hhvm_ret_inverse k =
    map_option GP (find (\<lambda>i. hhvm_ret_indices ! i = k) [0..<12])"

section \<open>IR values, instructions and the function being lifted\<close>

text \<open>
  IR values as far as the boundary code builds them: a null pointer (the content of a
  resized vector that was not written), a parameter of the lifted function, the result of
  an instruction (named by its handle), an undefined value, the raw state-struct pointer
  \<open>fi.sptr_raw\<close>, and any other value produced by the lifter.
\<close>

datatype val = NullVal | Argument nat | InstrVal nat | UndefValue | SptrRaw | OtherVal nat

datatype TailCallKind = TCK_None | TCK_MustTail

text \<open>
  \<open>StoreInst v i\<close> stores \<open>v\<close> to the slot pointer \<open>fi.sptr[i]\<close>, \<open>LoadInst i\<close> loads
  from it. \<open>CallInst\<close> carries the callee, the arguments, the calling convention, the
  attributes and the tail-call kind.
\<close>

datatype instr =
    StoreInst val nat
  | LoadInst nat
  | CallInst Function "val list" CallingConvID nat TailCallKind
  | ExtractValueInst val nat
  | RetVoid
  | Ret val
  | AggregateRet "val list"

datatype error = AssertionFailed | OutOfBounds

text \<open>
  \<open>RegisterSet\<close> is a fixed-size bit vector, here a word of the length \<open>'a\<close>;
  \<open>regset[i]\<close> is \<open>bit regset i\<close>, \<open>regset[i] = true\<close> is \<open>set_bit i\<close> and
  \<open>regset[i] = false\<close> is \<open>unset_bit i\<close>.
\<close>

text \<open>
  Modelled from the spec: the class \<open>RegFile\<close> (the virtual register file) is outside
  the visible sources. It holds the current value of each (register, facet) and the two
  register sets \<open>DirtyRegs\<close> and \<open>CleanedRegs\<close>.
\<close>

record (overloaded) 'a RegFile =
  facets :: "X86Reg \<times> Facet \<rightharpoonup> val"
  DirtyRegs :: "'a word"
  CleanedRegs :: "'a word"

text \<open>
  The parts that \<open>cpustruct-private.inc\<close>, \<open>regfile.h\<close> and the implementation of
  \<open>RegFile\<close> provide, as parameters of the model: the ABI registry of (slot index,
  register, facet), the canonical bit index of a (register, facet), and what
  \<open>RegFile::SetReg\<close> does to the dirty bit of the register it writes.
  \<open>SetReg_dirty flag old\<close> is the dirty bit of the register after a call with the
  fourth argument \<open>flag\<close>, when the bit was \<open>old\<close> before the call.
\<close>

record target =
  cpu_struct_entries :: "(nat \<times> X86Reg \<times> Facet) list"
  RegisterSetBitIdx :: "X86Reg \<Rightarrow> Facet \<Rightarrow> nat"
  SetReg_dirty :: "bool \<Rightarrow> bool \<Rightarrow> bool"

text \<open>
  Modelled from the spec: \<open>RegFile::GetReg\<close> is outside the visible sources. The
  specification gives it as \<open>get(reg, facet)\<close>, which reads the current value of the
  (register, facet). A facet that is not there reads as the null value.
\<close>

definition GetReg :: "'a::len RegFile \<Rightarrow> X86Reg \<Rightarrow> Facet \<Rightarrow> val" where
  "GetReg rf reg facet = (case facets rf (reg, facet) of Some v \<Rightarrow> v | None \<Rightarrow> NullVal)"

text \<open>
  Modelled from the spec: \<open>RegFile::Clear\<close> is outside the visible sources. The
  specification gives it as \<open>clear()\<close>, which removes all facets.
\<close>

definition Clear :: "'a::len RegFile \<Rightarrow> 'a RegFile" where
  "Clear rf = rf\<lparr>facets := Map.empty\<rparr>"

text \<open>
  Modelled from the spec: \<open>RegFile::SetReg\<close> is outside the visible sources. The
  specification gives it as \<open>set(reg, facet, value, markDirty)\<close> and says no more about
  it. The call enters the value for the (register, facet). Its effect on the dirty bit of
  the register is left open: it is the parameter \<open>SetReg_dirty\<close>, so that nothing proved
  below rests on a reading of the fourth argument. The dirty bits of the other registers
  and the cleaned bits stay as they are.
\<close>

definition SetReg :: "target \<Rightarrow> 'a::len RegFile \<Rightarrow> X86Reg \<Rightarrow> Facet \<Rightarrow> val \<Rightarrow> bool \<Rightarrow> 'a RegFile" where
  "SetReg tg rf reg facet v markDirty =
    rf\<lparr>facets := (facets rf)((reg, facet) \<mapsto> v),
       DirtyRegs :=
         (if SetReg_dirty tg markDirty (bit (DirtyRegs rf) (RegisterSetBitIdx tg reg facet))
          then set_bit (RegisterSetBitIdx tg reg facet) (DirtyRegs rf)
          else unset_bit (RegisterSetBitIdx tg reg facet) (DirtyRegs rf))\<rparr>"

text \<open>
  A Pack Record (\<open>CallConvPack\<close>): the block, the registers dirty at pack time, and the
  store emitted for each slot index (\<open>None\<close> is the null pointer).
\<close>

record (overloaded) 'a CallConvPack =
  bb :: nat
  block_dirty_regs :: "'a word"
  stores :: "nat \<rightharpoonup> nat"

text \<open>
  The function being lifted. Basic blocks are named by numbers; each has its predecessors,
  its successors, its register file and the instructions of its insert block, every
  instruction with the handle it was created under. \<open>call_conv_packs\<close> is the list of
  Pack Records of \<open>FunctionInfo\<close>.
\<close>

record (overloaded) 'a func =
  Predecessors :: "nat \<Rightarrow> nat list"
  Successors :: "nat \<Rightarrow> nat list"
  GetRegFile :: "nat \<Rightarrow> 'a RegFile"
  insts :: "nat \<Rightarrow> (nat \<times> instr) list"
  next_handle :: nat
  call_conv_packs :: "'a CallConvPack list"

text \<open>The builder appends an instruction to the insert block and returns its handle.\<close>

definition emit :: "nat \<Rightarrow> instr \<Rightarrow> 'a::len func \<Rightarrow> nat \<times> 'a func" where
  "emit b i s =
    (next_handle s,
     s\<lparr>insts := (insts s)(b := insts s b @ [(next_handle s, i)]),
       next_handle := Suc (next_handle s)\<rparr>)"

definition eraseFromParent :: "nat \<Rightarrow> 'a::len func \<Rightarrow> 'a func" where
  "eraseFromParent h s = s\<lparr>insts := (\<lambda>b. filter (\<lambda>hi. fst hi \<noteq> h) (insts s b))\<rparr>"

definition modify_inst :: "nat \<Rightarrow> (instr \<Rightarrow> instr) \<Rightarrow> 'a::len func \<Rightarrow> 'a func" where
  "modify_inst h f s =
    s\<lparr>insts := (\<lambda>b. map (\<lambda>hi. if fst hi = h then (fst hi, f (snd hi)) else hi) (insts s b))\<rparr>"

fun setCallingConv_instr :: "CallingConvID \<Rightarrow> instr \<Rightarrow> instr" where
  "setCallingConv_instr cc (CallInst fn args c at t) = CallInst fn args cc at t"
| "setCallingConv_instr cc i = i"

fun setAttributes_instr :: "nat \<Rightarrow> instr \<Rightarrow> instr" where
  "setAttributes_instr a (CallInst fn args c at t) = CallInst fn args c a t"
| "setAttributes_instr a i = i"

fun setTailCallKind_instr :: "TailCallKind \<Rightarrow> instr \<Rightarrow> instr" where
  "setTailCallKind_instr k (CallInst fn args c at t) = CallInst fn args c at k"
| "setTailCallKind_instr k i = i"

text \<open>
  Writing and reading an element of a vector; the index check of the vector's
  \<open>operator[]\<close> is the error \<open>OutOfBounds\<close>.
\<close>

definition vec_set :: "val list \<Rightarrow> nat \<Rightarrow> val \<Rightarrow> error + val list" where
  "vec_set xs i v = (if i < length xs then Inr (xs[i := v]) else Inl OutOfBounds)"

definition vec_get :: "val list \<Rightarrow> nat \<Rightarrow> error + val" where
  "vec_get xs i = (if i < length xs then Inr (xs ! i) else Inl OutOfBounds)"

section \<open>State packer and unpacker\<close>

definition set_regfile :: "nat \<Rightarrow> 'a RegFile \<Rightarrow> 'a::len func \<Rightarrow> 'a func" where
  "set_regfile b rf s = s\<lparr>GetRegFile := (GetRegFile s)(b := rf)\<rparr>"

text \<open>
  One iteration of the loop of \<open>Pack\<close>. \<open>pi\<close> is the position of the record that
  \<open>emplace_back\<close> appended, which \<open>pack_info\<close> refers to; \<open>k\<close> is the state captured by
  the closure \<open>hhvm_fn\<close>.
\<close>

definition pack_entry ::
  "target \<Rightarrow> CallConv \<Rightarrow> nat \<Rightarrow> nat \<Rightarrow> (X86Reg \<Rightarrow> val \<Rightarrow> 'k \<Rightarrow> 'k) \<Rightarrow>
   nat \<times> X86Reg \<times> Facet \<Rightarrow> 'a::len func \<times> 'k \<Rightarrow> 'a func \<times> 'k" where
  "pack_entry tg cconv b pi hhvm_fn e st =
    (case e of (sptr_idx, reg, facet) \<Rightarrow>
     case st of (s, k) \<Rightarrow>
      let reg_val = GetReg (GetRegFile s b) reg facet in
      if cconv = HHVM \<and> hhvm_is_host_reg reg then (s, hhvm_fn reg reg_val k)
      else
        let regset_idx = RegisterSetBitIdx tg reg facet;
            rf = GetRegFile s b;
            s1 = set_regfile b (rf\<lparr>DirtyRegs := unset_bit regset_idx (DirtyRegs rf)\<rparr>) s;
            rf1 = GetRegFile s1 b;
            s2 = set_regfile b (rf1\<lparr>CleanedRegs := set_bit regset_idx (CleanedRegs rf1)\<rparr>) s1;
            (h, s3) = emit b (StoreInst reg_val sptr_idx) s2;
            pack_info = call_conv_packs s3 ! pi
        in (s3\<lparr>call_conv_packs :=
                 (call_conv_packs s3)[pi := pack_info\<lparr>stores := (stores pack_info)(sptr_idx \<mapsto> h)\<rparr>]\<rparr>,
            k))"

definition Pack ::
  "target \<Rightarrow> CallConv \<Rightarrow> nat \<Rightarrow> (X86Reg \<Rightarrow> val \<Rightarrow> 'k \<Rightarrow> 'k) \<Rightarrow> 'a::len func \<Rightarrow> 'k \<Rightarrow> 'a func \<times> 'k" where
  "Pack tg cconv b hhvm_fn s k =
    (let pi = length (call_conv_packs s);
         s0 = s\<lparr>call_conv_packs := call_conv_packs s @
                 [\<lparr>bb = b, block_dirty_regs = DirtyRegs (GetRegFile s b), stores = Map.empty\<rparr>]\<rparr>
     in fold (pack_entry tg cconv b pi hhvm_fn) (cpu_struct_entries tg) (s0, k))"

text \<open>
  One iteration of the loop of \<open>Unpack\<close>. The source \<open>hhvm_fn\<close> may fail (an assertion,
  an index outside a vector); the failure ends the run.
\<close>

definition unpack_entry ::
  "target \<Rightarrow> CallConv \<Rightarrow> nat \<Rightarrow> (X86Reg \<Rightarrow> error + val) \<Rightarrow>
   nat \<times> X86Reg \<times> Facet \<Rightarrow> error + 'a::len func \<Rightarrow> error + 'a func" where
  "unpack_entry tg cconv b hhvm_fn e st =
    (case e of (sptr_idx, reg, facet) \<Rightarrow>
     case st of Inl err \<Rightarrow> Inl err
     | Inr s \<Rightarrow>
        if cconv = HHVM \<and> hhvm_is_host_reg reg then
          (case hhvm_fn reg of Inl err \<Rightarrow> Inl err
           | Inr v \<Rightarrow> Inr (set_regfile b (SetReg tg (GetRegFile s b) reg facet v False) s))
        else
          let (h, s1) = emit b (LoadInst sptr_idx) s;
              reg_val = InstrVal h;
              s2 = set_regfile b (SetReg tg (GetRegFile s1 b) reg facet reg_val False) s1;
              rf2 = GetRegFile s2 b
          in Inr (set_regfile b
                (rf2\<lparr>DirtyRegs := unset_bit (RegisterSetBitIdx tg reg facet) (DirtyRegs rf2)\<rparr>) s2))"

definition Unpack ::
  "target \<Rightarrow> CallConv \<Rightarrow> nat \<Rightarrow> (X86Reg \<Rightarrow> error + val) \<Rightarrow> 'a::len func \<Rightarrow> error + 'a func" where
  "Unpack tg cconv b hhvm_fn s =
    fold (unpack_entry tg cconv b hhvm_fn) (cpu_struct_entries tg)
      (Inr (set_regfile b (Clear (GetRegFile s b)) s))"

section \<open>Boundary code generation\<close>

definition ret_sink :: "X86Reg \<Rightarrow> val \<Rightarrow> error + val list \<Rightarrow> error + val list" where
  "ret_sink reg reg_val k =
    (case k of Inl err \<Rightarrow> Inl err
     | Inr hhvm_ret \<Rightarrow>
        (case hhvm_ret_index reg of None \<Rightarrow> Inl AssertionFailed
         | Some i \<Rightarrow> vec_set hhvm_ret i reg_val))"

definition arg_sink :: "X86Reg \<Rightarrow> val \<Rightarrow> error + val list \<Rightarrow> error + val list" where
  "arg_sink reg reg_val k =
    (case k of Inl err \<Rightarrow> Inl err
     | Inr call_args \<Rightarrow>
        (case hhvm_arg_index reg of None \<Rightarrow> Inl AssertionFailed
         | Some i \<Rightarrow> vec_set call_args i reg_val))"

definition Return :: "target \<Rightarrow> CallConv \<Rightarrow> nat \<Rightarrow> 'a::len func \<Rightarrow> error + nat \<times> 'a func" where
  "Return tg cconv b s =
    (let hhvm_ret = (if cconv = HHVM then (replicate 14 NullVal)[12 := UndefValue] else [])
     in case Pack tg cconv b ret_sink s (Inr hhvm_ret) of
          (s1, Inl err) \<Rightarrow> Inl err
        | (s1, Inr hhvm_ret') \<Rightarrow>
            if cconv = HHVM then Inr (emit b (AggregateRet hhvm_ret') s1)
            else Inr (emit b RetVoid s1))"

text \<open>
  The parameter \<open>fi.fn->arg_begin()[i]\<close> is \<open>Argument i\<close>; the source indexes the
  parameter array without a check.
\<close>

definition param_source :: "X86Reg \<Rightarrow> error + val" where
  "param_source reg =
    (case hhvm_arg_index reg of None \<Rightarrow> Inl AssertionFailed | Some i \<Rightarrow> Inr (Argument i))"

definition UnpackParams :: "target \<Rightarrow> CallConv \<Rightarrow> nat \<Rightarrow> 'a::len func \<Rightarrow> error + 'a func" where
  "UnpackParams tg cconv b s = Unpack tg cconv b param_source s"

definition ret_source :: "val list \<Rightarrow> X86Reg \<Rightarrow> error + val" where
  "ret_source hhvm_ret reg =
    (case hhvm_ret_index reg of None \<Rightarrow> Inl AssertionFailed | Some i \<Rightarrow> vec_get hhvm_ret i)"

text \<open>The loop \<open>for (i = 0; i < 14; i++) hhvm_ret.push_back(CreateExtractValue(call, {i}))\<close>.\<close>

fun extract_fields :: "nat \<Rightarrow> nat \<Rightarrow> nat list \<Rightarrow> val list \<times> 'a::len func \<Rightarrow> val list \<times> 'a func" where
  "extract_fields call b [] st = st"
| "extract_fields call b (i # is) (hhvm_ret, s) =
    (let (h, s') = emit b (ExtractValueInst (InstrVal call) i) s
     in extract_fields call b is (hhvm_ret @ [InstrVal h], s'))"

definition Call ::
  "target \<Rightarrow> CallConv \<Rightarrow> Function \<Rightarrow> nat \<Rightarrow> bool \<Rightarrow> 'a::len func \<Rightarrow> error + nat \<times> 'a func" where
  "Call tg cconv fn b tail_call s =
    (case vec_set (replicate (arg_size fn) NullVal) (CpuStructParamIdx cconv) SptrRaw of
       Inl err \<Rightarrow> Inl err
     | Inr call_args0 \<Rightarrow>
        (case Pack tg cconv b arg_sink s (Inr call_args0) of
           (s1, Inl err) \<Rightarrow> Inl err
         | (s1, Inr call_args) \<Rightarrow>
            let (call, s2) = emit b (CallInst fn call_args CC_C 0 TCK_None) s1;
                s3 = modify_inst call (setCallingConv_instr (getCallingConv fn)) s2;
                s4 = modify_inst call (setAttributes_instr (getAttributes fn)) s3
            in if tail_call then
                 let s5 = modify_inst call (setTailCallKind_instr TCK_MustTail) s4
                 in if getReturnType (getFunctionType fn) = VoidTy
                    then Inr (call, snd (emit b RetVoid s5))
                    else Inr (call, snd (emit b (Ret (InstrVal call)) s5))
               else
                 let (hhvm_ret, s5) =
                       (if cconv = HHVM then extract_fields call b [0..<14] ([], s4)
                        else ([], s4))
                 in (case Unpack tg cconv b (ret_source hhvm_ret) s5 of
                       Inl err \<Rightarrow> Inl err
                     | Inr s6 \<Rightarrow> Inr (call, s6))))"

section \<open>Redundant-store elimination\<close>

text \<open>\<open>DenseMap::lookup\<close>: the value of the key, or a default-constructed pair of empty sets.\<close>

definition lookup :: "(nat \<rightharpoonup> 'a::len word \<times> 'a word) \<Rightarrow> nat \<Rightarrow> 'a word \<times> 'a word" where
  "lookup bb_map b = (case bb_map b of None \<Rightarrow> (0, 0) | Some v \<Rightarrow> v)"

definition block_pre :: "'a::len func \<Rightarrow> (nat \<rightharpoonup> 'a word \<times> 'a word) \<Rightarrow> nat \<Rightarrow> 'a word" where
  "block_pre s bb_map b = fold (\<lambda>pred pre. pre OR snd (lookup bb_map pred)) (Predecessors s b) 0"

definition block_post :: "'a::len func \<Rightarrow> nat \<Rightarrow> 'a word \<Rightarrow> 'a word" where
  "block_post s b pre =
    (pre AND NOT (CleanedRegs (GetRegFile s b))) OR DirtyRegs (GetRegFile s b)"

text \<open>\<open>if (queue.insert(succ).second) new_queue_vec.push_back(succ)\<close>.\<close>

definition enqueue :: "nat \<Rightarrow> nat set \<times> nat list \<Rightarrow> nat set \<times> nat list" where
  "enqueue succ qs =
    (case qs of (queue, new_queue_vec) \<Rightarrow>
      if succ \<in> queue then (queue, new_queue_vec)
      else (insert succ queue, new_queue_vec @ [succ]))"

text \<open>The body of the inner loop, for one block of \<open>queue_vec\<close>.\<close>

definition visit ::
  "'a::len func \<Rightarrow> nat \<Rightarrow> (nat \<rightharpoonup> 'a word \<times> 'a word) \<times> nat set \<times> nat list \<Rightarrow>
   (nat \<rightharpoonup> 'a word \<times> 'a word) \<times> nat set \<times> nat list" where
  "visit s b st =
    (case st of (bb_map, queue, new_queue_vec) \<Rightarrow>
      let queue1 = queue - {b};
          pre = block_pre s bb_map b;
          post = block_post s b pre;
          new_regsets = (pre, post);
          inserted = (bb_map b = None);
          old = (case bb_map b of None \<Rightarrow> new_regsets | Some v \<Rightarrow> v);
          qs = (if inserted \<or> snd old \<noteq> post
                then fold enqueue (Successors s b) (queue1, new_queue_vec)
                else (queue1, new_queue_vec))
      in (bb_map(b \<mapsto> new_regsets), fst qs, snd qs))"

text \<open>
  The outer loop: while the pending set is not empty, run the inner loop over
  \<open>queue_vec\<close> and continue with \<open>new_queue_vec\<close>. The result is \<open>None\<close> when the loop
  does not end.
\<close>

definition round ::
  "'a::len func \<Rightarrow> (nat \<rightharpoonup> 'a word \<times> 'a word) \<times> nat set \<times> nat list \<Rightarrow>
   (nat \<rightharpoonup> 'a word \<times> 'a word) \<times> nat set \<times> nat list" where
  "round s st =
    (case st of (bb_map, queue, queue_vec) \<Rightarrow> fold (visit s) queue_vec (bb_map, queue, []))"

partial_function (option) worklist ::
  "'a::len func \<Rightarrow> (nat \<rightharpoonup> 'a word \<times> 'a word) \<times> nat set \<times> nat list \<Rightarrow>
   (nat \<rightharpoonup> 'a word \<times> 'a word) option" where
  "worklist s st =
    (if fst (snd st) = {} then Some (fst st) else worklist s (round s st))"

text \<open>The second loop: the stores of one Pack Record that are dead are erased.\<close>

definition erase_entry ::
  "target \<Rightarrow> 'a::len CallConvPack \<Rightarrow> 'a word \<Rightarrow> nat \<times> X86Reg \<times> Facet \<Rightarrow> 'a func \<Rightarrow> 'a func" where
  "erase_entry tg pack regset e s =
    (case e of (sptr_idx, reg, facet) \<Rightarrow>
      (case stores pack sptr_idx of
         Some h \<Rightarrow> if \<not> bit regset (RegisterSetBitIdx tg reg facet) then eraseFromParent h s else s
       | None \<Rightarrow> s))"

definition erase_pack ::
  "target \<Rightarrow> (nat \<rightharpoonup> 'a::len word \<times> 'a word) \<Rightarrow> 'a CallConvPack \<Rightarrow> 'a func \<Rightarrow> 'a func" where
  "erase_pack tg bb_map pack s =
    (let regset = fst (lookup bb_map (bb pack)) OR block_dirty_regs pack
     in fold (erase_entry tg pack regset) (cpu_struct_entries tg) s)"

definition OptimizePacks :: "target \<Rightarrow> 'a::len func \<Rightarrow> nat \<Rightarrow> 'a func option" where
  "OptimizePacks tg s entry =
    (case worklist s (Map.empty, {entry}, [entry]) of
       None \<Rightarrow> None
     | Some bb_map \<Rightarrow> Some (fold (erase_pack tg bb_map) (call_conv_packs s) s))"

section \<open>Notions for the analysis of the worklist loop\<close>

text \<open>
  Inclusion of register sets, the number of bits not set, the pending blocks of a round,
  the finite control-flow graph and the invariant of the loop.
\<close>

definition regset_le :: "'a::len word \<Rightarrow> 'a word \<Rightarrow> bool" where
  "regset_le a b = (a OR b = b)"

definition unset_count :: "'a::len word \<Rightarrow> nat" where
  "unset_count w = card {i. i < LENGTH('a) \<and> \<not> bit w i}"

definition pending_ok :: "nat set \<Rightarrow> nat list \<Rightarrow> nat list \<Rightarrow> bool" where
  "pending_ok q rem nv = (distinct rem \<and> distinct nv \<and> set rem \<inter> set nv = {} \<and> q = set rem \<union> set nv)"

definition changed :: "'a::len func \<Rightarrow> (nat \<rightharpoonup> 'a word \<times> 'a word) \<Rightarrow> nat \<Rightarrow> bool" where
  "changed s m b =
    (case m b of None \<Rightarrow> True | Some v \<Rightarrow> snd v \<noteq> block_post s b (block_pre s m b))"

definition visited_map :: "'a::len func \<Rightarrow> (nat \<rightharpoonup> 'a word \<times> 'a word) \<Rightarrow> nat \<Rightarrow> (nat \<rightharpoonup> 'a word \<times> 'a word)" where
  "visited_map s m b = m(b \<mapsto> (block_pre s m b, block_post s b (block_pre s m b)))"

definition mono_map :: "'a::len func \<Rightarrow> (nat \<rightharpoonup> 'a word \<times> 'a word) \<Rightarrow> bool" where
  "mono_map s m =
    (\<forall>b pre post. m b = Some (pre, post) \<longrightarrow> regset_le post (block_post s b (block_pre s m b)))"

definition weight :: "('a::len word \<times> 'a word) option \<Rightarrow> nat" where
  "weight v = (case v of None \<Rightarrow> LENGTH('a) + 1 | Some pp \<Rightarrow> unset_count (snd pp))"

definition measure_map :: "nat set \<Rightarrow> (nat \<rightharpoonup> 'a::len word \<times> 'a word) \<Rightarrow> nat" where
  "measure_map V m = (\<Sum>b\<in>V. weight (m b))"

definition succ_rel :: "'a::len func \<Rightarrow> (nat \<times> nat) set" where
  "succ_rel s = {(x, y). y \<in> set (Successors s x)}"

definition reachable :: "'a::len func \<Rightarrow> nat \<Rightarrow> nat set" where
  "reachable s entry = {b. (entry, b) \<in> (succ_rel s)\<^sup>*}"

definition cfg_ok :: "'a::len func \<Rightarrow> nat set \<Rightarrow> nat \<Rightarrow> bool" where
  "cfg_ok s V entry =
    (finite V \<and> entry \<in> V \<and> (\<forall>b\<in>V. set (Successors s b) \<subseteq> V)
     \<and> (\<forall>b\<in>V. \<forall>p\<in>V. p \<in> set (Predecessors s b) \<longrightarrow> b \<in> set (Successors s p)))"

definition solved :: "'a::len func \<Rightarrow> (nat \<rightharpoonup> 'a word \<times> 'a word) \<Rightarrow> nat \<Rightarrow> bool" where
  "solved s m b = (m b = Some (block_pre s m b, block_post s b (block_pre s m b)))"

definition wl_inv ::
  "'a::len func \<Rightarrow> nat set \<Rightarrow> nat \<Rightarrow> (nat \<rightharpoonup> 'a word \<times> 'a word) \<Rightarrow> nat set \<Rightarrow> bool" where
  "wl_inv s V entry m q =
    (q \<subseteq> V \<and> dom m \<subseteq> V \<and> mono_map s m \<and> entry \<in> dom m \<union> q
     \<and> (\<forall>b\<in>dom m. set (Successors s b) \<subseteq> dom m \<union> q)
     \<and> (\<forall>b\<in>dom m - q. solved s m b)
     \<and> dom m \<union> q \<subseteq> reachable s entry)"

definition round_inv ::
  "'a::len func \<Rightarrow> nat set \<Rightarrow> nat \<Rightarrow> (nat \<rightharpoonup> 'a word \<times> 'a word) \<times> nat set \<times> nat list \<Rightarrow> bool" where
  "round_inv s V entry st =
    (distinct (snd (snd st)) \<and> fst (snd st) = set (snd (snd st))
     \<and> wl_inv s V entry (fst st) (fst (snd st)))"

definition wl_rel ::
  "nat set \<Rightarrow> (((nat \<rightharpoonup> 'a::len word \<times> 'a word) \<times> nat set \<times> nat list)
     \<times> ((nat \<rightharpoonup> 'a word \<times> 'a word) \<times> nat set \<times> nat list)) set" where
  "wl_rel V =
    inv_image (less_than <*lex*> less_than)
      (\<lambda>st. (measure_map V (fst st), card (fst (snd st))))"

section \<open>Notions for the analysis of the erased stores\<close>

text \<open>
  The registers that are dirty when control enters a block, stated on the control-flow
  graph and the register files alone. A register is dirty at the exit of a block that is
  reachable from the entry when the block leaves it dirty, or when it is dirty at the exit
  of a predecessor and the block has not cleaned it. It is dirty on entry to a reachable
  block when it is dirty at the exit of one of the predecessors of the block. These are
  the least sets with \<open>post = (pre \ cleaned) \<union> dirty\<close> and \<open>pre\<close> the union of \<open>post\<close>
  over the predecessors.
\<close>

inductive dirty_out :: "'a::len func \<Rightarrow> nat \<Rightarrow> nat \<Rightarrow> nat \<Rightarrow> bool" for s entry where
  gen: "b \<in> reachable s entry \<Longrightarrow> bit (DirtyRegs (GetRegFile s b)) i \<Longrightarrow> dirty_out s entry b i"
| pass: "b \<in> reachable s entry \<Longrightarrow> p \<in> set (Predecessors s b) \<Longrightarrow> dirty_out s entry p i
    \<Longrightarrow> \<not> bit (CleanedRegs (GetRegFile s b)) i \<Longrightarrow> dirty_out s entry b i"

code_pred dirty_out .

definition dirty_in :: "'a::len func \<Rightarrow> nat \<Rightarrow> nat \<Rightarrow> nat \<Rightarrow> bool" where
  "dirty_in s entry b i =
    (b \<in> reachable s entry \<and> (\<exists>p\<in>set (Predecessors s b). dirty_out s entry p i))"

text \<open>Every bit that the map records at the exit of a block is dirty there.\<close>

definition sound_map :: "'a::len func \<Rightarrow> nat \<Rightarrow> (nat \<rightharpoonup> 'a word \<times> 'a word) \<Rightarrow> bool" where
  "sound_map s entry m = (\<forall>b i. bit (snd (lookup m b)) i \<longrightarrow> dirty_out s entry b i)"

definition pack_regset :: "(nat \<rightharpoonup> 'a::len word \<times> 'a word) \<Rightarrow> 'a CallConvPack \<Rightarrow> 'a word" where
  "pack_regset m pack = fst (lookup m (bb pack)) OR block_dirty_regs pack"

definition dead_in :: "target \<Rightarrow> 'a::len word \<Rightarrow> 'a CallConvPack \<Rightarrow> (nat \<times> X86Reg \<times> Facet) list \<Rightarrow> nat set" where
  "dead_in tg regset pack es =
    {h. \<exists>e\<in>set es. stores pack (fst e) = Some h
          \<and> \<not> bit regset (RegisterSetBitIdx tg (fst (snd e)) (snd (snd e)))}"

definition dead_stores :: "target \<Rightarrow> (nat \<rightharpoonup> 'a::len word \<times> 'a word) \<Rightarrow> 'a CallConvPack list \<Rightarrow> nat set" where
  "dead_stores tg m ps = (\<Union>pack\<in>set ps. dead_in tg (pack_regset m pack) pack (cpu_struct_entries tg))"

definition drop_handles :: "nat set \<Rightarrow> 'a::len func \<Rightarrow> 'a func" where
  "drop_handles D s = s\<lparr>insts := (\<lambda>b. filter (\<lambda>hi. fst hi \<notin> D) (insts s b))\<rparr>"

definition stores_distinct :: "'a::len CallConvPack list \<Rightarrow> bool" where
  "stores_distinct ps =
    (\<forall>j<length ps. \<forall>j'<length ps. \<forall>i i' h.
       stores (ps ! j) i = Some h \<and> stores (ps ! j') i' = Some h \<longrightarrow> j = j' \<and> i = i')"

section \<open>Notions for the analysis of the packer\<close>

definition is_host :: "CallConv \<Rightarrow> nat \<times> X86Reg \<times> Facet \<Rightarrow> bool" where
  "is_host cconv e = (cconv = HHVM \<and> hhvm_is_host_reg (fst (snd e)))"

definition mem_entries :: "CallConv \<Rightarrow> (nat \<times> X86Reg \<times> Facet) list \<Rightarrow> (nat \<times> X86Reg \<times> Facet) list" where
  "mem_entries cconv es = filter (\<lambda>e. \<not> is_host cconv e) es"

definition host_entries :: "CallConv \<Rightarrow> (nat \<times> X86Reg \<times> Facet) list \<Rightarrow> (nat \<times> X86Reg \<times> Facet) list" where
  "host_entries cconv es = filter (is_host cconv) es"

definition entry_bit :: "target \<Rightarrow> nat \<times> X86Reg \<times> Facet \<Rightarrow> nat" where
  "entry_bit tg e = RegisterSetBitIdx tg (fst (snd e)) (snd (snd e))"

definition entry_val :: "'a::len RegFile \<Rightarrow> nat \<times> X86Reg \<times> Facet \<Rightarrow> val" where
  "entry_val rf e = GetReg rf (fst (snd e)) (snd (snd e))"

definition entry_store :: "'a::len RegFile \<Rightarrow> nat \<times> X86Reg \<times> Facet \<Rightarrow> instr" where
  "entry_store rf e = StoreInst (entry_val rf e) (fst e)"

definition pack_mem_step :: "target \<Rightarrow> nat \<Rightarrow> nat \<Rightarrow> nat \<times> X86Reg \<times> Facet \<Rightarrow> 'a::len func \<Rightarrow> 'a func" where
  "pack_mem_step tg b pi e s =
     s\<lparr>GetRegFile := (GetRegFile s)(b := (GetRegFile s b)
           \<lparr>DirtyRegs := unset_bit (entry_bit tg e) (DirtyRegs (GetRegFile s b)),
            CleanedRegs := set_bit (entry_bit tg e) (CleanedRegs (GetRegFile s b))\<rparr>),
        insts := (insts s)(b := insts s b @ [(next_handle s, entry_store (GetRegFile s b) e)]),
        next_handle := Suc (next_handle s),
        call_conv_packs := (call_conv_packs s)[pi := (call_conv_packs s ! pi)
           \<lparr>stores := (stores (call_conv_packs s ! pi))(fst e \<mapsto> next_handle s)\<rparr>]\<rparr>"

definition host_sink :: "(X86Reg \<Rightarrow> val \<Rightarrow> 'k \<Rightarrow> 'k) \<Rightarrow> 'a::len RegFile \<Rightarrow> nat \<times> X86Reg \<times> Facet \<Rightarrow> 'k \<Rightarrow> 'k" where
  "host_sink hhvm_fn rf e k = hhvm_fn (fst (snd e)) (entry_val rf e) k"

section \<open>Notions for the analysis of the unpacker\<close>

definition unpack_host_step ::
  "target \<Rightarrow> nat \<Rightarrow> nat \<times> X86Reg \<times> Facet \<Rightarrow> val \<Rightarrow> 'a::len func \<Rightarrow> 'a func" where
  "unpack_host_step tg b e v s =
    s\<lparr>GetRegFile := (GetRegFile s)(b := (GetRegFile s b)
         \<lparr>facets := (facets (GetRegFile s b))(snd e \<mapsto> v),
          DirtyRegs :=
            (if SetReg_dirty tg False (bit (DirtyRegs (GetRegFile s b)) (entry_bit tg e))
             then set_bit (entry_bit tg e) (DirtyRegs (GetRegFile s b))
             else unset_bit (entry_bit tg e) (DirtyRegs (GetRegFile s b)))\<rparr>)\<rparr>"

definition unpack_mem_step ::
  "target \<Rightarrow> nat \<Rightarrow> nat \<times> X86Reg \<times> Facet \<Rightarrow> 'a::len func \<Rightarrow> 'a func" where
  "unpack_mem_step tg b e s =
    s\<lparr>GetRegFile := (GetRegFile s)(b := (GetRegFile s b)
         \<lparr>facets := (facets (GetRegFile s b))(snd e \<mapsto> InstrVal (next_handle s)),
          DirtyRegs := unset_bit (entry_bit tg e) (DirtyRegs (GetRegFile s b))\<rparr>),
      insts := (insts s)(b := insts s b @ [(next_handle s, LoadInst (fst e))]),
      next_handle := Suc (next_handle s)\<rparr>"

definition hostval ::
  "(X86Reg \<Rightarrow> error + val) \<Rightarrow> nat \<Rightarrow> 'a::len func \<Rightarrow> X86Reg \<times> Facet \<Rightarrow> bool" where
  "hostval hhvm_fn b s key =
    (\<exists>v. hhvm_fn (fst key) = Inr v \<and> facets (GetRegFile s b) key = Some v)"


section \<open>Notions for the analysis of the boundary code\<close>

definition wf_handles :: "'a::len func \<Rightarrow> bool" where
  "wf_handles s = (\<forall>c. \<forall>hi\<in>set (insts s c). fst hi < next_handle s)"

definition index_sink ::
  "(X86Reg \<Rightarrow> nat option) \<Rightarrow> X86Reg \<Rightarrow> val \<Rightarrow> error + val list \<Rightarrow> error + val list" where
  "index_sink idxf reg reg_val k =
    (case k of Inl err \<Rightarrow> Inl err
     | Inr vec \<Rightarrow> (case idxf reg of None \<Rightarrow> Inl AssertionFailed | Some i \<Rightarrow> vec_set vec i reg_val))"

definition emit_call :: "Function \<Rightarrow> val list \<Rightarrow> nat \<Rightarrow> 'a::len func \<Rightarrow> 'a func" where
  "emit_call fn call_args b st =
    modify_inst (next_handle st) (setAttributes_instr (getAttributes fn))
      (modify_inst (next_handle st) (setCallingConv_instr (getCallingConv fn))
        (snd (emit b (CallInst fn call_args CC_C 0 TCK_None) st)))"

definition ip_facet :: "target \<Rightarrow> Facet \<Rightarrow> bool" where
  "ip_facet tg facet =
    ((\<exists>sptr_idx. (sptr_idx, IP, facet) \<in> set (cpu_struct_entries tg))
     \<and> (\<forall>e\<in>set (cpu_struct_entries tg). fst (snd e) = IP \<longrightarrow> snd (snd e) = facet))"

section \<open>Example functions\<close>

text \<open>
  Small functions and registries on which the theorems below are instantiated: a function
  of one block with one Pack Record, two blocks in a row, a loop of four blocks (entry 0,
  header 1, body 2, exit 3), and a registry that holds the instruction pointer, a
  host-mapped general-purpose register and a general-purpose register that is not
  host-mapped. In both registries \<open>SetReg\<close> marks a register dirty when its fourth
  argument is set and leaves the dirty bit as it is otherwise.
\<close>

definition ex_target :: target where
  "ex_target = \<lparr>cpu_struct_entries = [(0, GP 0, Facet 0), (1, GP 1, Facet 0)],
          RegisterSetBitIdx = (\<lambda>reg facet. Index reg),
          SetReg_dirty = (\<lambda>flag old. flag \<or> old)\<rparr>"

definition ex_single :: "8 func" where
  "ex_single = \<lparr>Predecessors = (\<lambda>b. []), Successors = (\<lambda>b. []),
         GetRegFile = (\<lambda>b. \<lparr>facets = Map.empty, DirtyRegs = 0, CleanedRegs = 3\<rparr>),
         insts = (\<lambda>b. if b = 0
            then [(0, StoreInst (OtherVal 7) 0), (1, StoreInst (OtherVal 8) 1), (2, RetVoid)]
            else []),
         next_handle = 3,
         call_conv_packs = [\<lparr>bb = 0, block_dirty_regs = 2, stores = [0 \<mapsto> 0, 1 \<mapsto> 1]\<rparr>]\<rparr>"

text \<open>
  Two blocks in a row. The entry block leaves register 0 dirty; the second block has
  changed no register, holds a Pack Record with the stores of both slots, and has
  cleaned both registers by packing them.
\<close>

definition ex_chain :: "8 func" where
  "ex_chain = \<lparr>Predecessors = (\<lambda>b. if b = 1 then [0] else []),
         Successors = (\<lambda>b. if b = 0 then [1] else []),
         GetRegFile = (\<lambda>b. if b = 0 then \<lparr>facets = Map.empty, DirtyRegs = 1, CleanedRegs = 0\<rparr>
                            else \<lparr>facets = Map.empty, DirtyRegs = 0, CleanedRegs = 3\<rparr>),
         insts = (\<lambda>b. if b = 1
            then [(0, StoreInst (OtherVal 7) 0), (1, StoreInst (OtherVal 8) 1), (2, RetVoid)]
            else []),
         next_handle = 3,
         call_conv_packs = [\<lparr>bb = 1, block_dirty_regs = 0, stores = [0 \<mapsto> 0, 1 \<mapsto> 1]\<rparr>]\<rparr>"

definition ex_loop_regfile :: "nat \<Rightarrow> 32 RegFile" where
  "ex_loop_regfile b = \<lparr>facets = Map.empty, DirtyRegs = (if b = 2 then 0x1000 else 0), CleanedRegs = 0\<rparr>"

definition ex_loop :: "32 func" where
  "ex_loop = \<lparr>Predecessors = (\<lambda>b. if b = 1 then [0, 2] else if b = 2 then [1] else if b = 3 then [1] else []),
         Successors = (\<lambda>b. if b = 0 then [1] else if b = 1 then [2, 3] else if b = 2 then [1] else []),
         GetRegFile = ex_loop_regfile,
         insts = (\<lambda>b. []), next_handle = 0, call_conv_packs = []\<rparr>"

definition ex_target_host :: target where
  "ex_target_host = \<lparr>cpu_struct_entries = [(0, IP, Facet 0), (1, GP 0, Facet 0), (2, GP 12, Facet 0)],
          RegisterSetBitIdx =
            (\<lambda>reg facet. case reg of GP i \<Rightarrow> i | IP \<Rightarrow> 16 | EFLAGS \<Rightarrow> 17 | VEC i \<Rightarrow> 23 + i),
          SetReg_dirty = (\<lambda>flag old. flag \<or> old)\<rparr>"

definition ex_regfile :: "32 RegFile" where
  "ex_regfile = \<lparr>facets = [(IP, Facet 0) \<mapsto> OtherVal 100, (GP 0, Facet 0) \<mapsto> OtherVal 101,
                     (GP 12, Facet 0) \<mapsto> OtherVal 102],
          DirtyRegs = 0x1001, CleanedRegs = 0\<rparr>"

definition ex_func :: "32 func" where
  "ex_func = \<lparr>Predecessors = (\<lambda>b. []), Successors = (\<lambda>b. []), GetRegFile = (\<lambda>b. ex_regfile),
         insts = (\<lambda>b. []), next_handle = 0, call_conv_packs = []\<rparr>"

definition hhvm_ret0 :: "val list" where
  "hhvm_ret0 = (replicate 14 NullVal)[12 := UndefValue]"

definition ex_callee_void :: Function where
  "ex_callee_void =
    \<lparr>getCallingConv = CC_C, getFunctionType = FunctionType VoidTy [i8p 0] False, getAttributes = 7\<rparr>"

text \<open>A callee with the signature and the linkage of \<open>HHVM\<close>.\<close>

definition ex_callee_hhvm :: Function where
  "ex_callee_hhvm =
    \<lparr>getCallingConv = CC_HHVM,
     getFunctionType = FunctionType
       (StructTy [i64, i64, i64, i64, i64, i64, i64, i64, i64, i64, i64, i64, i64, i64])
       [i64, i8p 0, i64, i64, i64, i64, i64, i64, i64, i64, i64, i64, i64, i64] False,
     getAttributes = 9\<rparr>"

section \<open>Convention descriptor\<close>

lemma upt_12: "[0..<12] = [0, 1, 2, 3, 4, 5, 6, 7, 8, 9, 10, 11::nat]"
  by (simp add: upt_rec)

lemma less_12_cases:
  "(i::nat) < 12 \<Longrightarrow> i = 0 \<or> i = 1 \<or> i = 2 \<or> i = 3 \<or> i = 4 \<or> i = 5 \<or> i = 6
     \<or> i = 7 \<or> i = 8 \<or> i = 9 \<or> i = 10 \<or> i = 11"
  by arith

text \<open>
  C5. \<open>FromFunction\<close> guesses \<open>HHVM\<close> for the alternate linkage tag and \<open>SPTR\<close>
  otherwise, and returns the guess exactly when the guessed linkage equals the function's,
  the struct-pointer index is below the parameter count, that parameter is a pointer and
  the function type equals the signature at that pointer's address space; otherwise it
  returns \<open>INVALID\<close>.
\<close>

theorem FromFunction_resolve: "FromFunction fn = Resolve_spec fn"
  by (simp add: FromFunction_def Resolve_spec_def Resolve_checks_def Resolve_guess_def
      Let_def not_le)

text \<open>
  C6. The signature query: \<open>SPTR\<close> is the non-variadic \<open>void (i8*)\<close> with C linkage and
  struct-pointer index 0; \<open>HHVM\<close> is the non-variadic function of
  \<open>(i64, i8*, 12 x i64)\<close> returning an aggregate of fourteen \<open>i64\<close>, with the alternate
  linkage tag and struct-pointer index 1.
\<close>

theorem signature_shapes:
  "FnType SPTR a = Some (FunctionType VoidTy [PointerTy (IntegerTy 8) a] False)
   \<and> FnCallConv SPTR = CC_C \<and> CpuStructParamIdx SPTR = 0
   \<and> FnType HHVM a =
       Some (FunctionType (StructTy (replicate 14 (IntegerTy 64)))
              (IntegerTy 64 # PointerTy (IntegerTy 8) a # replicate 12 (IntegerTy 64)) False)
   \<and> FnCallConv HHVM = CC_HHVM \<and> CpuStructParamIdx HHVM = 1"
  by (simp add: i64_def i8p_def eval_nat_numeral)

section \<open>Register mapper\<close>

lemma set_12: "{0..<12::nat} = {0, 1, 2, 3, 4, 5, 6, 7, 8, 9, 10, 11}"
  by (simp only: atLeastLessThan_upt upt_12 list.set)

lemma hhvm_arg_roundtrip:
  "i < 12 \<Longrightarrow>
    \<exists>k. hhvm_arg_index (GP i) = Some k \<and> 2 \<le> k \<and> k \<le> 13 \<and> hhvm_arg_inverse k = Some (GP i)"
  by (drule less_12_cases)
     (auto simp: hhvm_arg_index_def hhvm_is_host_reg_def hhvm_arg_indices_def
        hhvm_arg_inverse_def upt_12)

lemma hhvm_ret_roundtrip:
  "i < 12 \<Longrightarrow>
    \<exists>k. hhvm_ret_index (GP i) = Some k \<and> 1 \<le> k \<and> k \<le> 13 \<and> hhvm_ret_inverse k = Some (GP i)"
  by (drule less_12_cases)
     (auto simp: hhvm_ret_index_def hhvm_is_host_reg_def hhvm_ret_indices_def
        hhvm_ret_inverse_def upt_12)

lemma hhvm_arg_index_inj: "inj_on hhvm_arg_index (GP ` {0..<12})"
proof (rule inj_on_inverseI
    [where g = "\<lambda>r. case r of Some k \<Rightarrow> the (hhvm_arg_inverse k) | None \<Rightarrow> IP"])
  fix x assume "x \<in> GP ` {0..<12}"
  then obtain i where "x = GP i" "i < 12" by auto
  with hhvm_arg_roundtrip [of i]
  show "(case hhvm_arg_index x of None \<Rightarrow> IP | Some k \<Rightarrow> the (hhvm_arg_inverse k)) = x"
    by auto
qed

lemma hhvm_ret_index_inj: "inj_on hhvm_ret_index (GP ` {0..<12})"
proof (rule inj_on_inverseI
    [where g = "\<lambda>r. case r of Some k \<Rightarrow> the (hhvm_ret_inverse k) | None \<Rightarrow> IP"])
  fix x assume "x \<in> GP ` {0..<12}"
  then obtain i where "x = GP i" "i < 12" by auto
  with hhvm_ret_roundtrip [of i]
  show "(case hhvm_ret_index x of None \<Rightarrow> IP | Some k \<Rightarrow> the (hhvm_ret_inverse k)) = x"
    by auto
qed

text \<open>
  C7. On the twelve host-mapped general-purpose registers (canonical index 0 to 11) the
  argument-index table is injective with values in [2,13] and the return-index table is
  injective with values in [1,13]; applying a table and then its inverse gives back the
  register.
\<close>

theorem hhvm_tables_invertible:
  "inj_on hhvm_arg_index (GP ` {0..<12}) \<and> inj_on hhvm_ret_index (GP ` {0..<12})
   \<and> (\<forall>i<12. \<exists>k. hhvm_arg_index (GP i) = Some k \<and> 2 \<le> k \<and> k \<le> 13
          \<and> hhvm_arg_inverse k = Some (GP i))
   \<and> (\<forall>i<12. \<exists>k. hhvm_ret_index (GP i) = Some k \<and> 1 \<le> k \<and> k \<le> 13
          \<and> hhvm_ret_inverse k = Some (GP i))"
  using hhvm_arg_index_inj hhvm_ret_index_inj hhvm_arg_roundtrip hhvm_ret_roundtrip
  by blast

theorem hhvm_tables_invertible_witness:
  "(3::nat) < 12 \<and> hhvm_arg_index (GP 3) = Some 2 \<and> hhvm_arg_inverse 2 = Some (GP 3)
   \<and> hhvm_ret_index (GP 3) = Some 1 \<and> hhvm_ret_inverse 1 = Some (GP 3)"
proof -
  have a: "hhvm_arg_index (GP 3) = Some 2" and r: "hhvm_ret_index (GP 3) = Some 1"
    by (simp_all add: hhvm_arg_index_def hhvm_ret_index_def hhvm_is_host_reg_def
        hhvm_arg_indices_def hhvm_ret_indices_def)
  from hhvm_tables_invertible have
    "\<exists>k. hhvm_arg_index (GP 3) = Some k \<and> 2 \<le> k \<and> k \<le> 13 \<and> hhvm_arg_inverse k = Some (GP 3)"
    "\<exists>k. hhvm_ret_index (GP 3) = Some k \<and> 1 \<le> k \<and> k \<le> 13 \<and> hhvm_ret_inverse k = Some (GP 3)"
    by simp_all
  with a r show ?thesis by simp
qed

lemma hhvm_arg_index_cases:
  "hhvm_arg_index reg = Some i \<Longrightarrow> (reg = IP \<and> i = 0) \<or> (reg \<noteq> IP \<and> 2 \<le> i \<and> i \<le> 13)"
proof (cases reg)
  case (GP j)
  assume a: "hhvm_arg_index reg = Some i"
  with GP have j: "j < 12" by (auto simp: hhvm_arg_index_def hhvm_is_host_reg_def split: if_splits)
  from hhvm_arg_roundtrip [OF j] a GP show ?thesis by auto
qed (auto simp: hhvm_arg_index_def hhvm_is_host_reg_def split: if_splits)

lemma hhvm_ret_index_cases:
  "hhvm_ret_index reg = Some i \<Longrightarrow>
    (reg = IP \<and> i = 0) \<or> (reg \<noteq> IP \<and> 1 \<le> i \<and> i \<le> 13 \<and> i \<noteq> 12)"
proof (cases reg)
  case (GP j)
  assume a: "hhvm_ret_index reg = Some i"
  with GP have j: "j < 12" by (auto simp: hhvm_ret_index_def hhvm_is_host_reg_def split: if_splits)
  from less_12_cases [OF j] a GP show ?thesis
    by (auto simp: hhvm_ret_index_def hhvm_is_host_reg_def hhvm_ret_indices_def)
qed (auto simp: hhvm_ret_index_def hhvm_is_host_reg_def split: if_splits)

text \<open>
  C8, as the specification states it, fails: the register with canonical index 7 is
  passed in argument slot 4, which the stated set of argument slots leaves out, and the
  struct pointer is argument 1, not argument 0.
\<close>

theorem hhvm_slots_counterexample:
  "hhvm_arg_index (GP 7) = Some 4 \<and> 4 \<notin> {2, 3, 5, 6, 7, 8, 9, 10, 11, 12, 13::nat}
   \<and> CpuStructParamIdx HHVM \<noteq> 0"
  by (simp add: hhvm_arg_index_def hhvm_is_host_reg_def hhvm_arg_indices_def)

text \<open>
  C8, amended. Under \<open>HHVM\<close> the twelve host-mapped general-purpose registers take
  exactly the argument slots 2 to 13 and the return slots 1 to 11 and 13; the struct
  pointer is argument 1, which is the pointer parameter of the signature, and no register
  is mapped to argument slot 1; argument slot 0 and return slot 0 are those of the
  instruction pointer and of no other register, and no register is mapped to return
  slot 12.
\<close>

theorem hhvm_slots:
  "(\<lambda>i. hhvm_arg_index (GP i)) ` {0..<12} = Some ` {2, 3, 4, 5, 6, 7, 8, 9, 10, 11, 12, 13}
   \<and> (\<lambda>i. hhvm_ret_index (GP i)) ` {0..<12} = Some ` {1, 2, 3, 4, 5, 6, 7, 8, 9, 10, 11, 13}
   \<and> CpuStructParamIdx HHVM = 1
   \<and> map_option (\<lambda>t. params t ! CpuStructParamIdx HHVM) (FnType HHVM a)
       = Some (PointerTy (IntegerTy 8) a)
   \<and> (\<forall>reg. hhvm_arg_index reg \<noteq> Some 1)
   \<and> (\<forall>reg. hhvm_arg_index reg = Some 0 \<longleftrightarrow> reg = IP)
   \<and> (\<forall>reg. hhvm_ret_index reg = Some 0 \<longleftrightarrow> reg = IP)
   \<and> (\<forall>reg. hhvm_ret_index reg \<noteq> Some 12)"
proof -
  have 1: "(\<lambda>i. hhvm_arg_index (GP i)) ` {0..<12} = Some ` {2, 3, 4, 5, 6, 7, 8, 9, 10, 11, 12, 13}"
    by (simp add: set_12 hhvm_arg_index_def hhvm_is_host_reg_def hhvm_arg_indices_def
        insert_commute)
  have 2: "(\<lambda>i. hhvm_ret_index (GP i)) ` {0..<12} = Some ` {1, 2, 3, 4, 5, 6, 7, 8, 9, 10, 11, 13}"
    by (simp add: set_12 hhvm_ret_index_def hhvm_is_host_reg_def hhvm_ret_indices_def
        insert_commute)
  have 3: "CpuStructParamIdx HHVM = 1"
    "map_option (\<lambda>t. params t ! CpuStructParamIdx HHVM) (FnType HHVM a)
       = Some (PointerTy (IntegerTy 8) a)"
    by (simp_all add: i8p_def)
  have ip: "hhvm_arg_index IP = Some 0" "hhvm_ret_index IP = Some 0"
    by (simp_all add: hhvm_arg_index_def hhvm_ret_index_def hhvm_is_host_reg_def)
  have 4: "hhvm_arg_index reg \<noteq> Some 1" for reg
    using hhvm_arg_index_cases [of reg 1] by auto
  have 5: "hhvm_arg_index reg = Some 0 \<longleftrightarrow> reg = IP" for reg
    using hhvm_arg_index_cases [of reg 0] ip by auto
  have 6: "hhvm_ret_index reg = Some 0 \<longleftrightarrow> reg = IP" for reg
    using hhvm_ret_index_cases [of reg 0] ip by auto
  have 7: "hhvm_ret_index reg \<noteq> Some 12" for reg
    using hhvm_ret_index_cases [of reg 12] by auto
  from 1 2 3 4 5 6 7 show ?thesis by blast
qed

section \<open>Convergence of the worklist loop\<close>

lemma regset_le_iff: "regset_le a b \<longleftrightarrow> (\<forall>i. bit a i \<longrightarrow> bit b i)"
proof
  assume "regset_le a b"
  then have e: "a OR b = b" by (simp add: regset_le_def)
  show "\<forall>i. bit a i \<longrightarrow> bit b i"
  proof (intro allI impI)
    fix i assume "bit a i"
    then have "bit (a OR b) i" by (simp add: bit_or_iff)
    with e show "bit b i" by simp
  qed
next
  assume h: "\<forall>i. bit a i \<longrightarrow> bit b i"
  show "regset_le a b"
    unfolding regset_le_def by (rule bit_word_eqI) (use h in \<open>auto simp: bit_or_iff\<close>)
qed

lemma regset_le_refl: "regset_le a a"
  by (simp add: regset_le_iff)

lemma regset_le_zero: "regset_le 0 a"
  by (simp add: regset_le_iff)

lemma regset_le_trans: "regset_le a b \<Longrightarrow> regset_le b c \<Longrightarrow> regset_le a c"
  by (simp add: regset_le_iff)

lemma regset_le_antisym: "regset_le a b \<Longrightarrow> regset_le b a \<Longrightarrow> a = b"
  by (rule bit_word_eqI) (auto simp: regset_le_iff)

lemma unset_count_le: "unset_count (w::'a::len word) \<le> LENGTH('a)"
proof -
  have "card {i. i < LENGTH('a) \<and> \<not> bit w i} \<le> card {i. i < LENGTH('a)}"
    by (rule card_mono) auto
  then show ?thesis by (simp add: unset_count_def)
qed

lemma unset_count_mono: "regset_le a b \<Longrightarrow> unset_count b \<le> unset_count a"
  unfolding unset_count_def regset_le_iff
  by (rule card_mono) auto

lemma unset_count_strict:
  assumes "regset_le a b" "a \<noteq> b"
  shows "unset_count b < unset_count (a::'a::len word)"
proof -
  have "\<exists>i. bit b i \<and> \<not> bit a i"
  proof (rule ccontr)
    assume "\<not> (\<exists>i. bit b i \<and> \<not> bit a i)"
    then have "regset_le b a" by (auto simp: regset_le_iff)
    with assms show False by (auto dest: regset_le_antisym)
  qed
  then obtain i where i: "bit b i" "\<not> bit a i" by blast
  then have il: "i < LENGTH('a)" by (auto dest: bit_imp_le_length)
  have "{i. i < LENGTH('a) \<and> \<not> bit b i} \<subset> {i. i < LENGTH('a) \<and> \<not> bit a i}"
    using assms(1) i il by (auto simp: regset_le_iff)
  then show ?thesis
    unfolding unset_count_def by (intro psubset_card_mono) auto
qed

lemma bit_fold_or:
  "bit (fold (\<lambda>p acc. acc OR f p) xs a) i \<longleftrightarrow> bit a i \<or> (\<exists>p\<in>set xs. bit (f p) i)"
  by (induction xs arbitrary: a) (auto simp: bit_or_iff)

lemma bit_block_pre:
  "bit (block_pre s m b) i \<longleftrightarrow> (\<exists>p\<in>set (Predecessors s b). bit (snd (lookup m p)) i)"
  by (simp add: block_pre_def bit_fold_or)

lemma bit_block_post:
  "bit (block_post s b pre) i \<longleftrightarrow>
     (bit pre i \<and> \<not> bit (CleanedRegs (GetRegFile s b)) i) \<or> bit (DirtyRegs (GetRegFile s b)) i"
  by (auto simp: block_post_def bit_or_iff bit_and_iff bit_not_iff dest: bit_imp_le_length)

lemma block_post_mono: "regset_le a c \<Longrightarrow> regset_le (block_post s b a) (block_post s b c)"
  by (auto simp: regset_le_iff bit_block_post)

lemma block_pre_cong:
  "(\<And>p. p \<in> set (Predecessors s b) \<Longrightarrow> snd (lookup m' p) = snd (lookup m p))
    \<Longrightarrow> block_pre s m' b = block_pre s m b"
  by (rule bit_word_eqI) (simp add: bit_block_pre)

lemma block_pre_mono:
  "(\<And>p. regset_le (snd (lookup m p)) (snd (lookup m' p)))
    \<Longrightarrow> regset_le (block_pre s m b) (block_pre s m' b)"
  by (auto simp: regset_le_iff bit_block_pre)

lemma enqueue_pair:
  "enqueue x (q, nv) = (if x \<in> q then (q, nv) else (insert x q, nv @ [x]))"
  by (simp add: enqueue_def)

lemma enqueue_fold:
  "fold enqueue xs (q, nv) = (q', nv') \<Longrightarrow> pending_ok q rem nv
    \<Longrightarrow> pending_ok q' rem nv' \<and> q' = q \<union> set xs"
proof (induction xs arbitrary: q nv)
  case Nil
  then show ?case by simp
next
  case (Cons x xs)
  show ?case
  proof (cases "x \<in> q")
    case True
    with Cons.prems have "fold enqueue xs (q, nv) = (q', nv')" by (simp add: enqueue_pair)
    from Cons.IH [OF this Cons.prems(2)] True show ?thesis by auto
  next
    case False
    with Cons.prems have f: "fold enqueue xs (insert x q, nv @ [x]) = (q', nv')"
      by (simp add: enqueue_pair)
    from False Cons.prems(2) have "pending_ok (insert x q) rem (nv @ [x])"
      by (auto simp: pending_ok_def)
    from Cons.IH [OF f this] show ?thesis by auto
  qed
qed

lemma visit_eq:
  "visit s b (m, q, nv) =
    (visited_map s m b,
     (if changed s m b then fold enqueue (Successors s b) (q - {b}, nv) else (q - {b}, nv)))"
  by (cases "m b") (simp_all add: visit_def visited_map_def changed_def Let_def)

lemma lookup_visited_same:
  "c \<noteq> b \<Longrightarrow> lookup (visited_map s m b) c = lookup m c"
  by (simp add: lookup_def visited_map_def)

lemma lookup_visited_self:
  "snd (lookup (visited_map s m b) b) = block_post s b (block_pre s m b)"
  by (simp add: lookup_def visited_map_def)

lemma lookup_unchanged:
  "\<not> changed s m b \<Longrightarrow> snd (lookup (visited_map s m b) c) = snd (lookup m c)"
  by (cases "c = b") (auto simp: lookup_def visited_map_def changed_def split: option.splits)

lemma lookup_grows:
  assumes "mono_map s m"
  shows "regset_le (snd (lookup m c)) (snd (lookup (visited_map s m b) c))"
proof (cases "c = b")
  case False
  then show ?thesis by (simp add: lookup_visited_same regset_le_refl)
next
  case True
  show ?thesis
  proof (cases "m b")
    case None
    with True show ?thesis by (simp add: lookup_def regset_le_zero)
  next
    case (Some v)
    with assms have "regset_le (snd v) (block_post s b (block_pre s m b))"
      by (cases v) (auto simp: mono_map_def)
    with True Some show ?thesis by (simp add: lookup_visited_self) (simp add: lookup_def)
  qed
qed

lemma mono_map_visited:
  assumes "mono_map s m"
  shows "mono_map s (visited_map s m b)"
proof -
  let ?m' = "visited_map s m b"
  have pre: "regset_le (block_pre s m c) (block_pre s ?m' c)" for c
    by (rule block_pre_mono) (rule lookup_grows [OF assms])
  show ?thesis
    unfolding mono_map_def
  proof (intro allI impI)
    fix c pre' post'
    assume h: "?m' c = Some (pre', post')"
    show "regset_le post' (block_post s c (block_pre s ?m' c))"
    proof (cases "c = b")
      case True
      with h have "post' = block_post s b (block_pre s m b)" by (auto simp: visited_map_def)
      with True show ?thesis using block_post_mono [OF pre [of b]] by simp
    next
      case False
      with h have "m c = Some (pre', post')" by (simp add: visited_map_def)
      with assms have "regset_le post' (block_post s c (block_pre s m c))"
        by (auto simp: mono_map_def)
      then show ?thesis using block_post_mono [OF pre [of c]] by (rule regset_le_trans)
    qed
  qed
qed

lemma weight_visited:
  assumes "mono_map s m"
  shows "weight (visited_map s m b b) \<le> weight (m b)"
    and "changed s m b \<Longrightarrow> weight (visited_map s m b b) < weight (m b)"
proof -
  let ?post = "block_post s b (block_pre s m b)"
  have w: "weight (visited_map s m b b) = unset_count ?post"
    by (simp add: weight_def visited_map_def)
  show "weight (visited_map s m b b) \<le> weight (m b)"
  proof (cases "m b")
    case None
    then show ?thesis using unset_count_le [of ?post] by (simp add: w) (simp add: weight_def)
  next
    case (Some v)
    with assms have "regset_le (snd v) ?post" by (cases v) (auto simp: mono_map_def)
    from unset_count_mono [OF this] Some show ?thesis by (simp add: w) (simp add: weight_def)
  qed
  show "weight (visited_map s m b b) < weight (m b)" if c: "changed s m b"
  proof (cases "m b")
    case None
    then show ?thesis using unset_count_le [of ?post] by (simp add: w) (simp add: weight_def)
  next
    case (Some v)
    with assms have le: "regset_le (snd v) ?post" by (cases v) (auto simp: mono_map_def)
    from c Some have "snd v \<noteq> ?post" by (simp add: changed_def)
    from unset_count_strict [OF le this] Some show ?thesis by (simp add: w) (simp add: weight_def)
  qed
qed

lemma measure_map_visited:
  assumes "finite V" "b \<in> V" "mono_map s m"
  shows "measure_map V (visited_map s m b) \<le> measure_map V m"
    and "changed s m b \<Longrightarrow> measure_map V (visited_map s m b) < measure_map V m"
proof -
  have rest: "(\<Sum>c\<in>V - {b}. weight (visited_map s m b c)) = (\<Sum>c\<in>V - {b}. weight (m c))"
    by (rule sum.cong) (auto simp: visited_map_def)
  have a: "measure_map V (visited_map s m b)
      = weight (visited_map s m b b) + (\<Sum>c\<in>V - {b}. weight (m c))"
    unfolding measure_map_def using assms(1,2) rest by (simp add: sum.remove)
  have b: "measure_map V m = weight (m b) + (\<Sum>c\<in>V - {b}. weight (m c))"
    unfolding measure_map_def using assms(1,2) by (simp add: sum.remove)
  show "measure_map V (visited_map s m b) \<le> measure_map V m"
    using weight_visited(1) [OF assms(3), of b] by (simp add: a b)
  show "measure_map V (visited_map s m b) < measure_map V m" if "changed s m b"
    using weight_visited(2) [OF assms(3) that] by (simp add: a b)
qed

lemma reachable_succ: "b \<in> reachable s entry \<Longrightarrow> set (Successors s b) \<subseteq> reachable s entry"
  by (auto simp: reachable_def succ_rel_def intro: rtrancl_into_rtrancl)

lemma dom_visited: "dom (visited_map s m b) = insert b (dom m)"
  by (auto simp: visited_map_def)

lemma visit_step:
  assumes cfg: "cfg_ok s V entry"
    and inv: "wl_inv s V entry m q"
    and pend: "pending_ok q (b # rem) nv"
    and vis: "visit s b (m, q, nv) = (m', q', nv')"
  shows "wl_inv s V entry m' q' \<and> pending_ok q' rem nv'
    \<and> measure_map V m' \<le> measure_map V m
    \<and> (measure_map V m' = measure_map V m \<longrightarrow> nv' = nv)"
proof -
  from pend have bq: "b \<in> q" and pend1: "pending_ok (q - {b}) rem nv"
    by (auto simp: pending_ok_def)
  from inv have qV: "q \<subseteq> V" and dV: "dom m \<subseteq> V" and mono: "mono_map s m"
    and ent: "entry \<in> dom m \<union> q"
    and clo: "\<forall>c\<in>dom m. set (Successors s c) \<subseteq> dom m \<union> q"
    and sol: "\<forall>c\<in>dom m - q. solved s m c"
    and rea: "dom m \<union> q \<subseteq> reachable s entry"
    by (simp_all add: wl_inv_def)
  from bq qV have bV: "b \<in> V" by auto
  from cfg have fin: "finite V" and suV: "set (Successors s b) \<subseteq> V"
    using bV by (auto simp: cfg_ok_def)
  from vis have m': "m' = visited_map s m b"
    and qs: "(q', nv') =
        (if changed s m b then fold enqueue (Successors s b) (q - {b}, nv) else (q - {b}, nv))"
    by (simp_all add: visit_eq)
  have q': "q' = (q - {b}) \<union> (if changed s m b then set (Successors s b) else {})"
    and pend': "pending_ok q' rem nv'"
    and nv': "\<not> changed s m b \<Longrightarrow> nv' = nv"
  proof -
    show "\<not> changed s m b \<Longrightarrow> nv' = nv" using qs by simp
    show "q' = (q - {b}) \<union> (if changed s m b then set (Successors s b) else {})"
    proof (cases "changed s m b")
      case True
      with qs have "fold enqueue (Successors s b) (q - {b}, nv) = (q', nv')" by simp
      from enqueue_fold [OF this pend1] True show ?thesis by simp
    next
      case False
      with qs show ?thesis by simp
    qed
    show "pending_ok q' rem nv'"
    proof (cases "changed s m b")
      case True
      with qs have "fold enqueue (Successors s b) (q - {b}, nv) = (q', nv')" by simp
      from enqueue_fold [OF this pend1] show ?thesis by (rule conjunct1)
    next
      case False
      with qs pend1 show ?thesis by simp
    qed
  qed
  have dm': "dom m' = insert b (dom m)" by (simp add: m' dom_visited)
  have pre_same: "block_pre s m' c = block_pre s m c"
    if "c \<in> V" "changed s m b \<Longrightarrow> c \<notin> set (Successors s b)" for c
  proof (cases "changed s m b")
    case False
    show ?thesis unfolding m' by (rule block_pre_cong) (rule lookup_unchanged [OF False])
  next
    case True
    with that have "c \<notin> set (Successors s b)" by simp
    with cfg that(1) bV have "b \<notin> set (Predecessors s c)" by (auto simp: cfg_ok_def)
    then have "p \<in> set (Predecessors s c) \<Longrightarrow> p \<noteq> b" for p by auto
    then show ?thesis
      unfolding m' by (intro block_pre_cong) (simp add: lookup_visited_same)
  qed
  have 1: "q' \<subseteq> V" using q' qV suV by (auto split: if_splits)
  have 2: "dom m' \<subseteq> V" using dm' dV bV by auto
  have 3: "mono_map s m'" unfolding m' by (rule mono_map_visited [OF mono])
  have 4: "entry \<in> dom m' \<union> q'" using ent dm' q' by auto
  have 5: "\<forall>c\<in>dom m'. set (Successors s c) \<subseteq> dom m' \<union> q'"
  proof
    fix c assume c: "c \<in> dom m'"
    show "set (Successors s c) \<subseteq> dom m' \<union> q'"
    proof (cases "c = b \<and> changed s m b")
      case True
      then show ?thesis using q' by auto
    next
      case False
      have "c \<in> dom m"
      proof (cases "c = b")
        case True
        with False have "\<not> changed s m b" by simp
        then show ?thesis using True by (auto simp: changed_def split: option.splits)
      next
        case False
        with c dm' show ?thesis by auto
      qed
      with clo have "set (Successors s c) \<subseteq> dom m \<union> q" by blast
      then show ?thesis using dm' q' by auto
    qed
  qed
  have 6: "\<forall>c\<in>dom m' - q'. solved s m' c"
  proof
    fix c assume c: "c \<in> dom m' - q'"
    then have cV: "c \<in> V" using 2 by auto
    have ns: "changed s m b \<Longrightarrow> c \<notin> set (Successors s b)" using c q' by auto
    have ps: "block_pre s m' c = block_pre s m c" by (rule pre_same [OF cV ns])
    show "solved s m' c"
    proof (cases "c = b")
      case True
      then show ?thesis using ps by (simp add: solved_def) (simp add: m' visited_map_def)
    next
      case False
      with c dm' q' have "c \<in> dom m - q" by auto
      with sol have "solved s m c" by blast
      with False show ?thesis using ps by (simp add: solved_def) (simp add: m' visited_map_def)
    qed
  qed
  have 7: "dom m' \<union> q' \<subseteq> reachable s entry"
  proof -
    from rea bq have "b \<in> reachable s entry" by auto
    from reachable_succ [OF this] rea dm' q' bq show ?thesis by (auto split: if_splits)
  qed
  have 8: "measure_map V m' \<le> measure_map V m"
    unfolding m' by (rule measure_map_visited(1) [OF fin bV mono])
  have 9: "measure_map V m' = measure_map V m \<longrightarrow> nv' = nv"
  proof
    assume e: "measure_map V m' = measure_map V m"
    have "\<not> changed s m b"
    proof
      assume "changed s m b"
      from measure_map_visited(2) [OF fin bV mono this] e show False by (simp add: m')
    qed
    then show "nv' = nv" by (rule nv')
  qed
  from 1 2 3 4 5 6 7 have "wl_inv s V entry m' q'" by (simp add: wl_inv_def)
  with pend' 8 9 show ?thesis by simp
qed

lemma fold_visit:
  assumes cfg: "cfg_ok s V entry"
  shows "wl_inv s V entry m q \<Longrightarrow> pending_ok q xs nv
    \<Longrightarrow> fold (visit s) xs (m, q, nv) = (m', q', nv')
    \<Longrightarrow> wl_inv s V entry m' q' \<and> pending_ok q' [] nv'
      \<and> measure_map V m' \<le> measure_map V m
      \<and> (measure_map V m' = measure_map V m \<longrightarrow> nv' = nv)"
proof (induction xs arbitrary: m q nv)
  case Nil
  then show ?case by simp
next
  case (Cons x xs)
  obtain m1 q1 nv1 where v: "visit s x (m, q, nv) = (m1, q1, nv1)"
    by (cases "visit s x (m, q, nv)") auto
  from visit_step [OF cfg Cons.prems(1) Cons.prems(2) v]
  have i1: "wl_inv s V entry m1 q1" and p1: "pending_ok q1 xs nv1"
    and le1: "measure_map V m1 \<le> measure_map V m"
    and eq1: "measure_map V m1 = measure_map V m \<longrightarrow> nv1 = nv"
    by simp_all
  from Cons.prems(3) v have "fold (visit s) xs (m1, q1, nv1) = (m', q', nv')" by simp
  from Cons.IH [OF i1 p1 this]
  have i2: "wl_inv s V entry m' q'" and p2: "pending_ok q' [] nv'"
    and le2: "measure_map V m' \<le> measure_map V m1"
    and eq2: "measure_map V m' = measure_map V m1 \<longrightarrow> nv' = nv1"
    by simp_all
  have "measure_map V m' = measure_map V m \<longrightarrow> nv' = nv"
    using le1 le2 eq1 eq2 by auto
  with i2 p2 le1 le2 show ?case by auto
qed

lemma wf_wl_rel: "wf (wl_rel V)"
  unfolding wl_rel_def by (intro wf_inv_image wf_lex_prod wf_less_than)

lemma round_step:
  assumes cfg: "cfg_ok s V entry"
    and inv: "round_inv s V entry st"
    and ne: "fst (snd st) \<noteq> {}"
  shows "round_inv s V entry (round s st) \<and> (round s st, st) \<in> wl_rel V"
proof -
  obtain m q qv where st: "st = (m, q, qv)" by (cases st) auto
  obtain m' q' nv' where r: "fold (visit s) qv (m, q, []) = (m', q', nv')"
    by (cases "fold (visit s) qv (m, q, [])") auto
  then have rs: "round s (m, q, qv) = (m', q', nv')" by (simp add: round_def)
  from inv st have d: "distinct qv" and q: "q = set qv" and w: "wl_inv s V entry m q"
    by (auto simp: round_inv_def)
  from d q have p: "pending_ok q qv []" by (simp add: pending_ok_def)
  from fold_visit [OF cfg w p r]
  have w': "wl_inv s V entry m' q'" and p': "pending_ok q' [] nv'"
    and le: "measure_map V m' \<le> measure_map V m"
    and eq: "measure_map V m' = measure_map V m \<longrightarrow> nv' = []"
    by simp_all
  from p' have d': "distinct nv'" and q': "q' = set nv'" by (simp_all add: pending_ok_def)
  have "(round s st, st) \<in> wl_rel V"
  proof (cases "measure_map V m' = measure_map V m")
    case True
    with eq q' have "q' = {}" by simp
    moreover from ne st q have "0 < card q" by (simp add: card_gt_0_iff)
    ultimately show ?thesis using True by (simp add: wl_rel_def rs st)
  next
    case False
    with le have "measure_map V m' < measure_map V m" by simp
    then show ?thesis by (simp add: wl_rel_def rs st)
  qed
  with w' d' q' show ?thesis by (simp add: round_inv_def rs st)
qed

lemma worklist_converges:
  assumes cfg: "cfg_ok s V entry"
  shows "round_inv s V entry st \<Longrightarrow> \<exists>m. worklist s st = Some m \<and> wl_inv s V entry m {}"
proof (induction st rule: wf_induct_rule [OF wf_wl_rel [of V]])
  case (1 st)
  show ?case
  proof (cases "fst (snd st) = {}")
    case True
    then have "worklist s st = Some (fst st)" by (subst worklist.simps) simp
    moreover from "1.prems" True have "wl_inv s V entry (fst st) {}"
      by (simp add: round_inv_def)
    ultimately show ?thesis by simp
  next
    case False
    from round_step [OF cfg "1.prems" False]
    have i: "round_inv s V entry (round s st)" and r: "(round s st, st) \<in> wl_rel V"
      by simp_all
    from "1.IH" [OF r i] obtain m where
      "worklist s (round s st) = Some m" "wl_inv s V entry m {}" by blast
    moreover from False have "worklist s st = worklist s (round s st)"
      by (subst worklist.simps) simp
    ultimately show ?thesis by simp
  qed
qed

lemma round_inv_initial:
  "cfg_ok s V entry \<Longrightarrow> round_inv s V entry (Map.empty, {entry}, [entry])"
  by (simp add: round_inv_def wl_inv_def cfg_ok_def mono_map_def reachable_def)

lemma wl_inv_final_dom:
  assumes "wl_inv s V entry m {}"
  shows "dom m = reachable s entry"
proof
  from assms show "dom m \<subseteq> reachable s entry" by (simp add: wl_inv_def)
  from assms have e: "entry \<in> dom m"
    and c: "\<And>b y. b \<in> dom m \<Longrightarrow> y \<in> set (Successors s b) \<Longrightarrow> y \<in> dom m"
    by (auto simp: wl_inv_def)
  show "reachable s entry \<subseteq> dom m"
  proof
    fix b assume "b \<in> reachable s entry"
    then have "(entry, b) \<in> (succ_rel s)\<^sup>*" by (simp add: reachable_def)
    then show "b \<in> dom m"
      by (induction rule: rtrancl_induct) (use e c in \<open>auto simp: succ_rel_def\<close>)
  qed
qed

lemma worklist_result:
  assumes cfg: "cfg_ok s V entry"
  shows "\<exists>m. worklist s (Map.empty, {entry}, [entry]) = Some m
    \<and> dom m = reachable s entry \<and> (\<forall>b\<in>dom m. solved s m b)"
proof -
  from worklist_converges [OF cfg round_inv_initial [OF cfg]] obtain m where
    w: "worklist s (Map.empty, {entry}, [entry]) = Some m" and i: "wl_inv s V entry m {}"
    by blast
  from i have "\<forall>b\<in>dom m. solved s m b" by (simp add: wl_inv_def)
  with w wl_inv_final_dom [OF i] show ?thesis by blast
qed

section \<open>Redundant-store elimination: the erased stores\<close>

lemma drop_handles_empty: "drop_handles {} s = s"
  by (simp add: drop_handles_def)

lemma drop_handles_twice: "drop_handles D (drop_handles E s) = drop_handles (E \<union> D) s"
  by (auto simp: drop_handles_def fun_eq_iff intro: filter_cong)

lemma eraseFromParent_drop: "eraseFromParent h s = drop_handles {h} s"
  by (simp add: eraseFromParent_def drop_handles_def)

lemma erase_entry_drop:
  "erase_entry tg pack regset e s = drop_handles (dead_in tg regset pack [e]) s"
proof -
  obtain i r f where e: "e = (i, r, f)" by (cases e) auto
  show ?thesis
  proof (cases "stores pack i")
    case None
    then have "dead_in tg regset pack [e] = {}" by (simp add: dead_in_def e)
    with None show ?thesis by (simp add: erase_entry_def e drop_handles_empty)
  next
    case (Some h)
    show ?thesis
    proof (cases "bit regset (RegisterSetBitIdx tg r f)")
      case True
      with Some have "dead_in tg regset pack [e] = {}" by (simp add: dead_in_def e)
      with Some True show ?thesis by (simp add: erase_entry_def e drop_handles_empty)
    next
      case False
      with Some have "dead_in tg regset pack [e] = {h}" by (auto simp: dead_in_def e)
      with Some False show ?thesis by (simp add: erase_entry_def e eraseFromParent_drop)
    qed
  qed
qed

lemma dead_in_Cons:
  "dead_in tg regset pack (e # es) = dead_in tg regset pack [e] \<union> dead_in tg regset pack es"
  by (auto simp: dead_in_def)

lemma fold_erase_entry:
  "fold (erase_entry tg pack regset) es s = drop_handles (dead_in tg regset pack es) s"
proof (induction es arbitrary: s)
  case Nil
  show ?case by (simp add: dead_in_def drop_handles_empty)
next
  case (Cons e es)
  have "fold (erase_entry tg pack regset) (e # es) s
      = fold (erase_entry tg pack regset) es (erase_entry tg pack regset e s)" by simp
  also have "\<dots> = drop_handles (dead_in tg regset pack es) (erase_entry tg pack regset e s)"
    by (rule Cons.IH)
  also have "\<dots> = drop_handles (dead_in tg regset pack [e] \<union> dead_in tg regset pack es) s"
    by (simp only: erase_entry_drop drop_handles_twice)
  also have "\<dots> = drop_handles (dead_in tg regset pack (e # es)) s"
    by (simp only: dead_in_Cons [of tg regset pack e es])
  finally show ?case .
qed

lemma erase_pack_drop:
  "erase_pack tg m pack s = drop_handles (dead_in tg (pack_regset m pack) pack (cpu_struct_entries tg)) s"
  by (simp add: erase_pack_def pack_regset_def fold_erase_entry Let_def)

lemma fold_erase_pack:
  "fold (erase_pack tg m) ps s = drop_handles (dead_stores tg m ps) s"
proof (induction ps arbitrary: s)
  case Nil
  show ?case by (simp add: dead_stores_def drop_handles_empty)
next
  case (Cons p ps)
  have d: "dead_stores tg m (p # ps)
      = dead_in tg (pack_regset m p) p (cpu_struct_entries tg) \<union> dead_stores tg m ps"
    by (simp add: dead_stores_def)
  have "fold (erase_pack tg m) (p # ps) s = fold (erase_pack tg m) ps (erase_pack tg m p s)"
    by simp
  also have "\<dots> = drop_handles (dead_stores tg m ps) (erase_pack tg m p s)"
    by (rule Cons.IH)
  also have "\<dots> = drop_handles (dead_stores tg m (p # ps)) s"
    by (simp only: erase_pack_drop drop_handles_twice d)
  finally show ?case .
qed

lemma dead_stores_iff:
  assumes dist: "distinct (map fst (cpu_struct_entries tg))"
    and sd: "stores_distinct ps"
    and j: "j < length ps"
    and e: "(i, r, f) \<in> set (cpu_struct_entries tg)"
    and h: "stores (ps ! j) i = Some h"
  shows "h \<in> dead_stores tg m ps \<longleftrightarrow> \<not> bit (pack_regset m (ps ! j)) (RegisterSetBitIdx tg r f)"
proof
  assume "\<not> bit (pack_regset m (ps ! j)) (RegisterSetBitIdx tg r f)"
  with e h have "h \<in> dead_in tg (pack_regset m (ps ! j)) (ps ! j) (cpu_struct_entries tg)"
    by (force simp: dead_in_def)
  with j show "h \<in> dead_stores tg m ps" by (auto simp: dead_stores_def)
next
  assume "h \<in> dead_stores tg m ps"
  then obtain p e' where p: "p \<in> set ps" and e': "e' \<in> set (cpu_struct_entries tg)"
    and h': "stores p (fst e') = Some h"
    and nb: "\<not> bit (pack_regset m p) (RegisterSetBitIdx tg (fst (snd e')) (snd (snd e')))"
    by (auto simp: dead_stores_def dead_in_def)
  from p obtain j' where j': "j' < length ps" "p = ps ! j'" by (auto simp: in_set_conv_nth)
  from sd [unfolded stores_distinct_def] j j' h h' have "j = j' \<and> i = fst e'" by blast
  then have "j = j'" "i = fst e'" by simp_all
  moreover from dist e e' \<open>i = fst e'\<close> have "e' = (i, r, f)"
    by (metis eq_key_imp_eq_value prod.collapse)
  ultimately show "\<not> bit (pack_regset m (ps ! j)) (RegisterSetBitIdx tg r f)"
    using nb j' by simp
qed

lemma worklist_step: "fst (snd st) \<noteq> {} \<Longrightarrow> worklist s st = worklist s (round s st)"
  by (subst worklist.simps) simp

lemma worklist_done: "fst (snd st) = {} \<Longrightarrow> worklist s st = Some (fst st)"
  by (subst worklist.simps) simp

lemmas worklist_eval =
  worklist_step worklist_done round_def visit_def block_pre_def block_post_def lookup_def
  enqueue_def Let_def insert_Diff_if

lemma OptimizePacks_total:
  assumes "cfg_ok s V entry"
  shows "\<exists>m. worklist s (Map.empty, {entry}, [entry]) = Some m
    \<and> dom m = reachable s entry \<and> (\<forall>b\<in>dom m. solved s m b)
    \<and> OptimizePacks tg s entry = Some (drop_handles (dead_stores tg m (call_conv_packs s)) s)"
proof -
  from worklist_result [OF assms] obtain m where
    m: "worklist s (Map.empty, {entry}, [entry]) = Some m" "dom m = reachable s entry"
      "\<forall>b\<in>dom m. solved s m b" by blast
  then have "OptimizePacks tg s entry = Some (drop_handles (dead_stores tg m (call_conv_packs s)) s)"
    by (simp add: OptimizePacks_def fold_erase_pack)
  with m show ?thesis by blast
qed

lemma dirty_out_reachable: "dirty_out s entry b i \<Longrightarrow> b \<in> reachable s entry"
  by (erule dirty_out.cases) simp_all

lemma sound_map_empty: "sound_map s entry Map.empty"
  by (simp add: sound_map_def lookup_def)

lemma sound_visited:
  assumes "sound_map s entry m" and "b \<in> reachable s entry"
  shows "sound_map s entry (visited_map s m b)"
  unfolding sound_map_def
proof (intro allI impI)
  fix c i assume c: "bit (snd (lookup (visited_map s m b) c)) i"
  show "dirty_out s entry c i"
  proof (cases "c = b")
    case False
    with c assms(1) show ?thesis by (simp add: lookup_visited_same sound_map_def)
  next
    case True
    with c have "bit (block_post s b (block_pre s m b)) i" by (simp add: lookup_visited_self)
    then consider "bit (DirtyRegs (GetRegFile s b)) i"
      | p where "p \<in> set (Predecessors s b)" "bit (snd (lookup m p)) i"
          "\<not> bit (CleanedRegs (GetRegFile s b)) i"
      by (auto simp: bit_block_post bit_block_pre)
    then show ?thesis
    proof cases
      case 1
      with assms(2) True show ?thesis by (auto intro: dirty_out.gen)
    next
      case 2
      from 2(2) assms(1) have "dirty_out s entry p i" by (simp add: sound_map_def)
      with 2 assms(2) True show ?thesis by (auto intro: dirty_out.pass)
    qed
  qed
qed

lemma fst_visit: "fst (visit s b st) = visited_map s (fst st) b"
  by (cases st) (simp add: visit_eq)

lemma fold_visit_sound:
  "sound_map s entry (fst st) \<Longrightarrow> set xs \<subseteq> reachable s entry
    \<Longrightarrow> sound_map s entry (fst (fold (visit s) xs st))"
proof (induction xs arbitrary: st)
  case Nil
  then show ?case by simp
next
  case (Cons x xs)
  from Cons.prems have "sound_map s entry (fst (visit s x st))"
    by (simp add: fst_visit sound_visited)
  with Cons.IH [of "visit s x st"] Cons.prems(2) show ?case by simp
qed

lemma round_sound:
  assumes "round_inv s V entry st" and "sound_map s entry (fst st)"
  shows "sound_map s entry (fst (round s st))"
proof -
  obtain m q qv where st: "st = (m, q, qv)" by (cases st) auto
  from assms(1) st have "set qv \<subseteq> reachable s entry"
    by (auto simp: round_inv_def wl_inv_def)
  with fold_visit_sound [of s entry "(m, q, [])" qv] assms(2) st show ?thesis
    by (simp add: round_def)
qed

lemma worklist_sound:
  assumes cfg: "cfg_ok s V entry"
  shows "round_inv s V entry st \<Longrightarrow> sound_map s entry (fst st) \<Longrightarrow> worklist s st = Some m
    \<Longrightarrow> sound_map s entry m"
proof (induction st rule: wf_induct_rule [OF wf_wl_rel [of V]])
  case (1 st)
  show ?case
  proof (cases "fst (snd st) = {}")
    case True
    with "1.prems"(3) have "m = fst st" by (simp add: worklist_done)
    with "1.prems"(2) show ?thesis by simp
  next
    case False
    from round_step [OF cfg "1.prems"(1) False]
    have i: "round_inv s V entry (round s st)" and r: "(round s st, st) \<in> wl_rel V"
      by simp_all
    from "1.prems"(3) False have w: "worklist s (round s st) = Some m"
      by (simp add: worklist_step)
    from round_sound [OF "1.prems"(1,2)] have "sound_map s entry (fst (round s st))" .
    from "1.IH" [OF r i this w] show ?thesis .
  qed
qed

lemma solved_complete:
  assumes d: "dom m = reachable s entry" and sol: "\<forall>b\<in>dom m. solved s m b"
  shows "dirty_out s entry b i \<Longrightarrow> bit (snd (lookup m b)) i"
proof (induction rule: dirty_out.induct)
  case (gen b i)
  with d sol have "m b = Some (block_pre s m b, block_post s b (block_pre s m b))"
    by (simp add: solved_def)
  with gen(2) show ?case by (simp add: lookup_def bit_block_post)
next
  case (pass b p i)
  with d sol have "m b = Some (block_pre s m b, block_post s b (block_pre s m b))"
    by (simp add: solved_def)
  moreover from pass have "bit (block_pre s m b) i" by (auto simp: bit_block_pre)
  ultimately show ?case using pass(4) by (simp add: lookup_def bit_block_post)
qed

lemma worklist_pre_set:
  assumes cfg: "cfg_ok s V entry"
    and w: "worklist s (Map.empty, {entry}, [entry]) = Some m"
  shows "bit (fst (lookup m b)) i \<longleftrightarrow> dirty_in s entry b i"
    and "bit (snd (lookup m b)) i \<longleftrightarrow> dirty_out s entry b i"
proof -
  from worklist_result [OF cfg] w have d: "dom m = reachable s entry"
    and sol: "\<forall>b\<in>dom m. solved s m b" by auto
  have "sound_map s entry m"
    by (rule worklist_sound [OF cfg round_inv_initial [OF cfg] _ w]) (simp add: sound_map_empty)
  then have snd: "bit (snd (lookup m c)) j \<Longrightarrow> dirty_out s entry c j" for c j
    by (simp add: sound_map_def)
  from snd solved_complete [OF d sol]
  show o: "bit (snd (lookup m b)) i \<longleftrightarrow> dirty_out s entry b i" for b i by blast
  show "bit (fst (lookup m b)) i \<longleftrightarrow> dirty_in s entry b i"
  proof (cases "b \<in> dom m")
    case False
    then have "m b = None" by auto
    then have "fst (lookup m b) = 0" by (simp add: lookup_def)
    with False d show ?thesis by (simp add: dirty_in_def)
  next
    case True
    with sol have "m b = Some (block_pre s m b, block_post s b (block_pre s m b))"
      by (simp add: solved_def)
    then have "fst (lookup m b) = block_pre s m b" by (simp add: lookup_def)
    with True d o show ?thesis by (simp add: dirty_in_def bit_block_pre)
  qed
qed


lemma dirty_out_iff:
  "dirty_out s entry b i \<longleftrightarrow>
    b \<in> reachable s entry
    \<and> ((dirty_in s entry b i \<and> \<not> bit (CleanedRegs (GetRegFile s b)) i)
        \<or> bit (DirtyRegs (GetRegFile s b)) i)"
proof
  assume "dirty_out s entry b i"
  then show "b \<in> reachable s entry
    \<and> ((dirty_in s entry b i \<and> \<not> bit (CleanedRegs (GetRegFile s b)) i)
        \<or> bit (DirtyRegs (GetRegFile s b)) i)"
    by (cases rule: dirty_out.cases) (auto simp: dirty_in_def)
next
  assume "b \<in> reachable s entry
    \<and> ((dirty_in s entry b i \<and> \<not> bit (CleanedRegs (GetRegFile s b)) i)
        \<or> bit (DirtyRegs (GetRegFile s b)) i)"
  then show "dirty_out s entry b i"
    by (auto simp: dirty_in_def intro: dirty_out.gen dirty_out.pass)
qed

text \<open>
  C1. On a finite control-flow graph, with unique slot indices in the registry and a
  distinct store handle for every (record, slot), \<open>OptimizePacks\<close> returns. The pre-set
  on which the worklist loop converges holds, for every block, exactly the registers that
  are dirty on entry to the block (\<open>dirty_in\<close>, which does not refer to the loop). For
  every Pack Record and every registry entry whose slot has a recorded store that is in
  the IR, the store is deleted if and only if the bit of the entry's (register, facet) is
  set neither in that pre-set of the record's block nor in the record's snapshot of the
  dirty registers; a store whose bit is set in one of the two is kept.
\<close>

theorem OptimizePacks_deletes_dead_stores:
  assumes cfg: "cfg_ok s V entry"
    and dist: "distinct (map fst (cpu_struct_entries tg))"
    and sd: "stores_distinct (call_conv_packs s)"
  shows "\<exists>m s'. worklist s (Map.empty, {entry}, [entry]) = Some m
      \<and> (\<forall>b i. bit (fst (lookup m b)) i \<longleftrightarrow> dirty_in s entry b i)
      \<and> OptimizePacks tg s entry = Some s'
      \<and> (\<forall>j<length (call_conv_packs s). \<forall>e\<in>set (cpu_struct_entries tg). \<forall>h b i.
            stores (call_conv_packs s ! j) (fst e) = Some h \<and> (h, i) \<in> set (insts s b) \<longrightarrow>
              ((h, i) \<notin> set (insts s' b) \<longleftrightarrow>
                 \<not> (dirty_in s entry (bb (call_conv_packs s ! j))
                        (RegisterSetBitIdx tg (fst (snd e)) (snd (snd e)))
                    \<or> bit (block_dirty_regs (call_conv_packs s ! j))
                        (RegisterSetBitIdx tg (fst (snd e)) (snd (snd e))))))"
proof -
  from OptimizePacks_total [OF cfg, of tg] obtain m where
    m: "worklist s (Map.empty, {entry}, [entry]) = Some m"
    and o: "OptimizePacks tg s entry = Some (drop_handles (dead_stores tg m (call_conv_packs s)) s)"
    by blast
  note pre = worklist_pre_set(1) [OF cfg m]
  let ?s' = "drop_handles (dead_stores tg m (call_conv_packs s)) s"
  have "(h, i) \<notin> set (insts ?s' b) \<longleftrightarrow>
      \<not> (dirty_in s entry (bb (call_conv_packs s ! j))
              (RegisterSetBitIdx tg (fst (snd e)) (snd (snd e)))
         \<or> bit (block_dirty_regs (call_conv_packs s ! j))
              (RegisterSetBitIdx tg (fst (snd e)) (snd (snd e))))"
    if j: "j < length (call_conv_packs s)" and e: "e \<in> set (cpu_struct_entries tg)"
      and h: "stores (call_conv_packs s ! j) (fst e) = Some h" and i: "(h, i) \<in> set (insts s b)"
    for j e h b i
  proof -
    from e have e': "(fst e, fst (snd e), snd (snd e)) \<in> set (cpu_struct_entries tg)" by simp
    from i have "(h, i) \<notin> set (insts ?s' b) \<longleftrightarrow> h \<in> dead_stores tg m (call_conv_packs s)"
      by (auto simp: drop_handles_def)
    with dead_stores_iff [OF dist sd j e' h, of m] show ?thesis
      by (simp add: pack_regset_def bit_or_iff pre)
  qed
  with m o pre show ?thesis by blast
qed

lemma worklist_ex_single: "worklist ex_single (Map.empty, {0}, [0]) = Some [0 \<mapsto> (0, 0)]"
  by (simp add: worklist_eval ex_single_def)

lemma OptimizePacks_ex_single:
  "OptimizePacks ex_target ex_single 0 = Some (eraseFromParent 0 ex_single)"
  unfolding OptimizePacks_def worklist_ex_single
  by (simp add: erase_pack_def erase_entry_def lookup_def ex_target_def ex_single_def)

lemma cfg_ok_ex_chain: "cfg_ok ex_chain {0, 1} 0"
  by (simp add: cfg_ok_def ex_chain_def)

lemma stores_distinct_ex_chain: "stores_distinct (call_conv_packs ex_chain)"
  by (auto simp: stores_distinct_def ex_chain_def split: if_splits)

lemma worklist_ex_chain:
  "worklist ex_chain (Map.empty, {0}, [0]) = Some [0 \<mapsto> (0, 1), 1 \<mapsto> (1, 0)]"
  by (simp add: worklist_eval ex_chain_def)

lemma OptimizePacks_ex_chain:
  "OptimizePacks ex_target ex_chain 0 = Some (eraseFromParent 1 ex_chain)"
  unfolding OptimizePacks_def worklist_ex_chain
  by (simp add: erase_pack_def erase_entry_def lookup_def ex_target_def ex_chain_def)

lemma dirty_in_ex_chain: "dirty_in ex_chain 0 1 0"
proof -
  have r0: "0 \<in> reachable ex_chain 0" by (simp add: reachable_def)
  have r1: "1 \<in> reachable ex_chain 0"
    by (auto simp: reachable_def succ_rel_def ex_chain_def)
  have "dirty_out ex_chain 0 0 0"
    by (rule dirty_out.gen [OF r0]) (simp add: ex_chain_def)
  with r1 show ?thesis by (simp add: dirty_in_def ex_chain_def)
qed

theorem OptimizePacks_deletes_dead_stores_witness:
  "cfg_ok ex_chain {0, 1} 0 \<and> distinct (map fst (cpu_struct_entries ex_target))
   \<and> stores_distinct (call_conv_packs ex_chain)
   \<and> OptimizePacks ex_target ex_chain 0 = Some (eraseFromParent 1 ex_chain)
   \<and> insts ex_chain 1 = [(0, StoreInst (OtherVal 7) 0), (1, StoreInst (OtherVal 8) 1), (2, RetVoid)]
   \<and> insts (eraseFromParent 1 ex_chain) 1 = [(0, StoreInst (OtherVal 7) 0), (2, RetVoid)]
   \<and> block_dirty_regs (call_conv_packs ex_chain ! 0) = 0
   \<and> dirty_in ex_chain 0 1 0 \<and> \<not> dirty_in ex_chain 0 1 1"
proof -
  have d: "distinct (map fst (cpu_struct_entries ex_target))" by (simp add: ex_target_def)
  from OptimizePacks_deletes_dead_stores [OF cfg_ok_ex_chain d stores_distinct_ex_chain]
  obtain s' where o: "OptimizePacks ex_target ex_chain 0 = Some s'"
    and a: "\<forall>j<length (call_conv_packs ex_chain). \<forall>e\<in>set (cpu_struct_entries ex_target). \<forall>h b i.
            stores (call_conv_packs ex_chain ! j) (fst e) = Some h \<and> (h, i) \<in> set (insts ex_chain b) \<longrightarrow>
              ((h, i) \<notin> set (insts s' b) \<longleftrightarrow>
                 \<not> (dirty_in ex_chain 0 (bb (call_conv_packs ex_chain ! j))
                        (RegisterSetBitIdx ex_target (fst (snd e)) (snd (snd e)))
                    \<or> bit (block_dirty_regs (call_conv_packs ex_chain ! j))
                        (RegisterSetBitIdx ex_target (fst (snd e)) (snd (snd e)))))"
    by blast
  from o have s': "s' = eraseFromParent 1 ex_chain" by (simp add: OptimizePacks_ex_chain)
  have j: "0 < length (call_conv_packs ex_chain)" by (simp add: ex_chain_def)
  have e0: "(0, GP 0, Facet 0) \<in> set (cpu_struct_entries ex_target)"
    and e1: "(1, GP 1, Facet 0) \<in> set (cpu_struct_entries ex_target)"
    by (simp_all add: ex_target_def)
  have h0: "stores (call_conv_packs ex_chain ! 0) (fst (0::nat, GP 0, Facet 0)) = Some 0
      \<and> (0, StoreInst (OtherVal 7) 0) \<in> set (insts ex_chain 1)"
    and h1: "stores (call_conv_packs ex_chain ! 0) (fst (1::nat, GP 1, Facet 0)) = Some 1
      \<and> (1, StoreInst (OtherVal 8) 1) \<in> set (insts ex_chain 1)"
    by (simp_all add: ex_chain_def)
  have i0: "insts ex_chain 1 = [(0, StoreInst (OtherVal 7) 0), (1, StoreInst (OtherVal 8) 1), (2, RetVoid)]"
    and i1: "insts (eraseFromParent 1 ex_chain) 1 = [(0, StoreInst (OtherVal 7) 0), (2, RetVoid)]"
    and b0: "block_dirty_regs (call_conv_packs ex_chain ! 0) = 0"
    and bb0: "bb (call_conv_packs ex_chain ! 0) = 1"
    by (simp_all add: eraseFromParent_def ex_chain_def)
  from a [rule_format, OF j e0 h0]
  have k0: "dirty_in ex_chain 0 1 0"
    unfolding s' i1 b0 bb0 by (simp add: ex_target_def)
  from a [rule_format, OF j e1 h1]
  have k1: "\<not> dirty_in ex_chain 0 1 1"
    unfolding s' i1 b0 bb0 by (simp add: ex_target_def)
  from d cfg_ok_ex_chain stores_distinct_ex_chain OptimizePacks_ex_chain i0 i1 b0 k0 k1
  show ?thesis by simp
qed

text \<open>
  C2, amended. On every finite control-flow graph (a finite set of blocks that holds the
  entry and is closed under successors, the predecessor lists agreeing with the successor
  lists), cyclic or not, the worklist loop terminates. At termination the map holds
  exactly the blocks reachable from the entry, and for each of them
  \<open>post = (pre AND NOT cleaned) OR dirty\<close>, where \<open>pre\<close> is the union of the recorded
  \<open>post\<close> over all predecessors. The pass returns, and it leaves the function
  unchanged when no Pack Record was recorded.
\<close>

theorem worklist_fixed_point:
  assumes "cfg_ok s V entry"
  shows "\<exists>m. worklist s (Map.empty, {entry}, [entry]) = Some m
     \<and> dom m = reachable s entry
     \<and> (\<forall>b\<in>dom m. \<exists>pre post. m b = Some (pre, post)
          \<and> post = (pre AND NOT (CleanedRegs (GetRegFile s b))) OR DirtyRegs (GetRegFile s b)
          \<and> (\<forall>i. bit pre i \<longleftrightarrow> (\<exists>p\<in>set (Predecessors s b). bit (snd (lookup m p)) i)))
     \<and> (\<exists>s'. OptimizePacks tg s entry = Some s')
     \<and> (call_conv_packs s = [] \<longrightarrow> OptimizePacks tg s entry = Some s)"
proof -
  from OptimizePacks_total [OF assms, of tg] obtain m where
    m: "worklist s (Map.empty, {entry}, [entry]) = Some m" "dom m = reachable s entry"
    and sol: "\<forall>b\<in>dom m. solved s m b"
    and o: "OptimizePacks tg s entry = Some (drop_handles (dead_stores tg m (call_conv_packs s)) s)"
    by blast
  have eqs: "\<forall>b\<in>dom m. \<exists>pre post. m b = Some (pre, post)
          \<and> post = (pre AND NOT (CleanedRegs (GetRegFile s b))) OR DirtyRegs (GetRegFile s b)
          \<and> (\<forall>i. bit pre i \<longleftrightarrow> (\<exists>p\<in>set (Predecessors s b). bit (snd (lookup m p)) i))"
  proof
    fix b assume "b \<in> dom m"
    with sol have "m b = Some (block_pre s m b, block_post s b (block_pre s m b))"
      by (simp add: solved_def)
    then show "\<exists>pre post. m b = Some (pre, post)
          \<and> post = (pre AND NOT (CleanedRegs (GetRegFile s b))) OR DirtyRegs (GetRegFile s b)
          \<and> (\<forall>i. bit pre i \<longleftrightarrow> (\<exists>p\<in>set (Predecessors s b). bit (snd (lookup m p)) i))"
      by (simp add: block_post_def bit_block_pre)
  qed
  have "call_conv_packs s = [] \<longrightarrow> OptimizePacks tg s entry = Some s"
    using o by (simp add: dead_stores_def drop_handles_empty)
  with m eqs o show ?thesis by blast
qed

lemma cfg_ok_ex_loop: "cfg_ok ex_loop {0, 1, 2, 3} 0"
  by (simp add: cfg_ok_def ex_loop_def)

lemma worklist_ex_loop:
  "worklist ex_loop (Map.empty, {0}, [0])
    = Some [0 \<mapsto> (0, 0), 1 \<mapsto> (0x1000, 0x1000), 2 \<mapsto> (0x1000, 0x1000), 3 \<mapsto> (0x1000, 0x1000)]"
  by (simp add: worklist_eval ex_loop_def ex_loop_regfile_def)

theorem worklist_fixed_point_witness:
  "cfg_ok ex_loop {0, 1, 2, 3} 0
   \<and> (\<exists>m. worklist ex_loop (Map.empty, {0}, [0]) = Some m
        \<and> m 1 = Some (0x1000, 0x1000) \<and> m 2 = Some (0x1000, 0x1000)
        \<and> dom m = reachable ex_loop 0
        \<and> OptimizePacks ex_target ex_loop 0 = Some ex_loop)"
proof -
  from worklist_fixed_point [OF cfg_ok_ex_loop, of ex_target] obtain m where
    m: "worklist ex_loop (Map.empty, {0}, [0]) = Some m" "dom m = reachable ex_loop 0"
    and n: "call_conv_packs ex_loop = [] \<longrightarrow> OptimizePacks ex_target ex_loop 0 = Some ex_loop"
    by blast
  from m(1) have "m = [0 \<mapsto> (0, 0), 1 \<mapsto> (0x1000, 0x1000), 2 \<mapsto> (0x1000, 0x1000), 3 \<mapsto> (0x1000, 0x1000)]"
    by (simp add: worklist_ex_loop)
  then have "m 1 = Some (0x1000, 0x1000)" "m 2 = Some (0x1000, 0x1000)" by simp_all
  moreover from n have "OptimizePacks ex_target ex_loop 0 = Some ex_loop" by (simp add: ex_loop_def)
  ultimately show ?thesis using cfg_ok_ex_loop m by blast
qed

text \<open>
  C2, as the specification states it, fails in its last part: on a control-flow graph of
  one block without edges the pass is not a no-op. With a Pack Record whose snapshot does
  not hold the register of slot 0, the store of slot 0 is deleted.
\<close>

theorem trivial_cfg_counterexample:
  "Predecessors ex_single 0 = [] \<and> Successors ex_single 0 = []
   \<and> OptimizePacks ex_target ex_single 0 = Some (eraseFromParent 0 ex_single)
   \<and> insts (eraseFromParent 0 ex_single) 0 = [(1, StoreInst (OtherVal 8) 1), (2, RetVoid)]
   \<and> insts ex_single 0 = [(0, StoreInst (OtherVal 7) 0), (1, StoreInst (OtherVal 8) 1), (2, RetVoid)]
   \<and> OptimizePacks ex_target ex_single 0 \<noteq> Some ex_single"
proof -
  have a: "insts (eraseFromParent 0 ex_single) 0 = [(1, StoreInst (OtherVal 8) 1), (2, RetVoid)]"
    by (simp add: eraseFromParent_def ex_single_def)
  have b: "insts ex_single 0 = [(0, StoreInst (OtherVal 7) 0), (1, StoreInst (OtherVal 8) 1), (2, RetVoid)]"
    by (simp add: ex_single_def)
  from a b have "eraseFromParent 0 ex_single \<noteq> ex_single" by auto
  with a b show ?thesis by (simp add: OptimizePacks_ex_single) (simp add: ex_single_def)
qed

section \<open>State packer\<close>

lemma pack_entry_host:
  "is_host cconv e \<Longrightarrow>
    pack_entry tg cconv b pi hhvm_fn e (s, k) = (s, host_sink hhvm_fn (GetRegFile s b) e k)"
  by (cases e) (simp add: pack_entry_def is_host_def entry_val_def host_sink_def)

lemma pack_entry_mem:
  "\<not> is_host cconv e \<Longrightarrow>
    pack_entry tg cconv b pi hhvm_fn e (s, k) = (pack_mem_step tg b pi e s, k)"
  by (cases e)
     (auto simp: pack_entry_def is_host_def entry_val_def entry_store_def entry_bit_def
        set_regfile_def emit_def Let_def pack_mem_step_def)

lemma facets_pack_mem_step:
  "facets (GetRegFile (pack_mem_step tg b pi e s) c) = facets (GetRegFile s c)"
  by (simp add: pack_mem_step_def)

lemma entry_val_cong: "facets rf = facets rf' \<Longrightarrow> entry_val rf e = entry_val rf' e"
  by (simp add: entry_val_def GetReg_def)

lemma host_sink_cong:
  assumes "facets rf = facets rf'"
  shows "host_sink hhvm_fn rf = host_sink hhvm_fn rf'"
proof (intro ext)
  fix e k
  show "host_sink hhvm_fn rf e k = host_sink hhvm_fn rf' e k"
    unfolding host_sink_def by (simp only: entry_val_cong [OF assms])
qed

lemma entry_store_cong:
  assumes "facets rf = facets rf'"
  shows "entry_store rf e = entry_store rf' e"
  unfolding entry_store_def by (simp only: entry_val_cong [OF assms])

lemma fold_pack_entry:
  "fold (pack_entry tg cconv b pi hhvm_fn) es (s, k) =
    (fold (pack_mem_step tg b pi) (mem_entries cconv es) s,
     fold (host_sink hhvm_fn (GetRegFile s b)) (host_entries cconv es) k)"
proof (induction es arbitrary: s k)
  case Nil
  show ?case by (simp add: mem_entries_def host_entries_def)
next
  case (Cons e es)
  show ?case
  proof (cases "is_host cconv e")
    case True
    then show ?thesis
      by (simp add: pack_entry_host Cons.IH mem_entries_def host_entries_def)
  next
    case False
    have "host_sink hhvm_fn (GetRegFile (pack_mem_step tg b pi e s) b)
        = host_sink hhvm_fn (GetRegFile s b)"
      by (rule host_sink_cong) (rule facets_pack_mem_step)
    with False show ?thesis
      by (simp add: pack_entry_mem Cons.IH mem_entries_def host_entries_def)
  qed
qed

lemma fold_mem_frame:
  "Predecessors (fold (pack_mem_step tg b pi) ms s) = Predecessors s
   \<and> Successors (fold (pack_mem_step tg b pi) ms s) = Successors s
   \<and> next_handle (fold (pack_mem_step tg b pi) ms s) = next_handle s + length ms
   \<and> facets (GetRegFile (fold (pack_mem_step tg b pi) ms s) c) = facets (GetRegFile s c)
   \<and> length (call_conv_packs (fold (pack_mem_step tg b pi) ms s)) = length (call_conv_packs s)"
proof (induction ms arbitrary: s)
  case Nil
  show ?case by simp
next
  case (Cons e ms)
  show ?case by (simp add: Cons.IH) (simp add: pack_mem_step_def)
qed

lemma fold_mem_other_block:
  "c \<noteq> b \<Longrightarrow>
    GetRegFile (fold (pack_mem_step tg b pi) ms s) c = GetRegFile s c
    \<and> insts (fold (pack_mem_step tg b pi) ms s) c = insts s c"
proof (induction ms arbitrary: s)
  case Nil
  show ?case by simp
next
  case (Cons e ms)
  then show ?case by (simp add: pack_mem_step_def)
qed

lemma fold_mem_dirty:
  "bit (DirtyRegs (GetRegFile (fold (pack_mem_step tg b pi) ms s) b)) n \<longleftrightarrow>
     bit (DirtyRegs (GetRegFile s b)) n \<and> n \<notin> entry_bit tg ` set ms"
proof (induction ms arbitrary: s)
  case Nil
  show ?case by simp
next
  case (Cons e ms)
  show ?case by (simp add: Cons.IH) (auto simp: pack_mem_step_def bit_unset_bit_iff)
qed

lemma fold_mem_cleaned:
  "bit (CleanedRegs (GetRegFile (fold (pack_mem_step tg b pi) ms (s::'a::len func)) b)) n \<longleftrightarrow>
     bit (CleanedRegs (GetRegFile s b)) n \<or> (n \<in> entry_bit tg ` set ms \<and> n < LENGTH('a))"
proof (induction ms arbitrary: s)
  case Nil
  show ?case by simp
next
  case (Cons e ms)
  show ?case by (simp add: Cons.IH) (auto simp: pack_mem_step_def bit_set_bit_iff)
qed

lemma fold_mem_insts:
  "insts (fold (pack_mem_step tg b pi) ms s) b =
     insts s b @ zip [next_handle s..<next_handle s + length ms] (map (entry_store (GetRegFile s b)) ms)"
proof (induction ms arbitrary: s)
  case Nil
  show ?case by simp
next
  case (Cons e ms)
  let ?s1 = "pack_mem_step tg b pi e s"
  have a: "insts ?s1 b = insts s b @ [(next_handle s, entry_store (GetRegFile s b) e)]"
    and b: "next_handle ?s1 = Suc (next_handle s)"
    by (simp_all add: pack_mem_step_def)
  have c: "map (entry_store (GetRegFile ?s1 b)) ms = map (entry_store (GetRegFile s b)) ms"
    by (rule map_cong [OF refl]) (rule entry_store_cong, rule facets_pack_mem_step)
  have d: "[next_handle s..<next_handle s + length (e # ms)]
      = next_handle s # [Suc (next_handle s)..<Suc (next_handle s) + length ms]"
    by (subst upt_conv_Cons) simp_all
  show ?case by (simp only: fold_simps Cons.IH a b c d list.map zip_Cons_Cons append_assoc append.simps)
qed

lemma fold_mem_packs:
  "pi < length (call_conv_packs s) \<Longrightarrow>
   call_conv_packs (fold (pack_mem_step tg b pi) ms s) =
     (call_conv_packs s)[pi := (call_conv_packs s ! pi)
        \<lparr>stores := stores (call_conv_packs s ! pi)
            ++ map_of (rev (zip (map fst ms) [next_handle s..<next_handle s + length ms]))\<rparr>]"
proof (induction ms arbitrary: s)
  case Nil
  then show ?case by simp
next
  case (Cons e ms)
  let ?s1 = "pack_mem_step tg b pi e s"
  let ?p = "call_conv_packs s ! pi"
  have a: "call_conv_packs ?s1 = (call_conv_packs s)[pi := ?p\<lparr>stores := (stores ?p)(fst e \<mapsto> next_handle s)\<rparr>]"
    and b: "next_handle ?s1 = Suc (next_handle s)"
    by (simp_all add: pack_mem_step_def)
  from Cons.prems a have l: "pi < length (call_conv_packs ?s1)" by simp
  have d: "[next_handle s..<next_handle s + length (e # ms)]
      = next_handle s # [Suc (next_handle s)..<Suc (next_handle s) + length ms]"
    by (subst upt_conv_Cons) simp_all
  let ?M = "map_of (rev (zip (map fst ms) [Suc (next_handle s)..<Suc (next_handle s) + length ms]))"
  have m: "(stores ?p)(fst e \<mapsto> next_handle s) ++ ?M
      = stores ?p ++ map_of (rev (zip (map fst (e # ms)) [next_handle s..<next_handle s + length (e # ms)]))"
    unfolding d by (simp add: fun_eq_iff map_add_def split: option.splits)
  have "call_conv_packs (fold (pack_mem_step tg b pi) (e # ms) s)
      = call_conv_packs (fold (pack_mem_step tg b pi) ms ?s1)" by simp
  also have "\<dots> = (call_conv_packs ?s1)[pi := (call_conv_packs ?s1 ! pi)
        \<lparr>stores := stores (call_conv_packs ?s1 ! pi) ++ ?M\<rparr>]"
    unfolding Cons.IH [OF l] b ..
  also have "\<dots> = (call_conv_packs s)[pi := ?p\<lparr>stores := (stores ?p)(fst e \<mapsto> next_handle s) ++ ?M\<rparr>]"
    using Cons.prems unfolding a by simp
  also have "\<dots> = (call_conv_packs s)[pi := ?p\<lparr>stores := stores ?p
        ++ map_of (rev (zip (map fst (e # ms)) [next_handle s..<next_handle s + length (e # ms)]))\<rparr>]"
    by (subst m) (rule refl)
  finally show ?case .
qed

lemma stored_handle:
  assumes d: "distinct (map fst ms)" and e: "e \<in> set ms"
  shows "\<exists>h. map_of (rev (zip (map fst ms) [n..<n + length ms])) (fst e) = Some h
    \<and> (h, f e) \<in> set (zip [n..<n + length ms] (map f ms))"
proof -
  from e obtain j where j: "j < length ms" "ms ! j = e" by (auto simp: in_set_conv_nth)
  let ?Z = "zip (map fst ms) [n..<n + length ms]"
  have "map fst ?Z = map fst ms" by simp
  with d have dz: "distinct (map fst (rev ?Z))"
    by (simp only: rev_map [symmetric] distinct_rev)
  from j have "(fst e, n + j) \<in> set ?Z" by (force simp: set_zip)
  then have "(fst e, n + j) \<in> set (rev ?Z)" by simp
  with dz have 1: "map_of (rev ?Z) (fst e) = Some (n + j)" by (simp only: map_of_eq_Some_iff)
  from j have 2: "(n + j, f e) \<in> set (zip [n..<n + length ms] (map f ms))"
    by (force simp: set_zip)
  from 1 2 show ?thesis by blast
qed

lemma not_stored_handle:
  assumes "k \<notin> fst ` set ms"
  shows "map_of (rev (zip (map fst ms) [n..<n + length ms])) k = None"
proof -
  have "fst ` set (zip (map fst ms) [n..<n + length ms]) = fst ` set ms"
    by (metis diff_add_inverse length_map length_upt list.set_map map_fst_zip)
  with assms show ?thesis by (simp add: map_of_eq_None_iff)
qed

lemma Pack_unfold:
  "Pack tg cconv b hhvm_fn s k =
    (fold (pack_mem_step tg b (length (call_conv_packs s)))
       (mem_entries cconv (cpu_struct_entries tg))
       (s\<lparr>call_conv_packs := call_conv_packs s @
            [\<lparr>bb = b, block_dirty_regs = DirtyRegs (GetRegFile s b), stores = Map.empty\<rparr>]\<rparr>),
     fold (host_sink hhvm_fn (GetRegFile s b)) (host_entries cconv (cpu_struct_entries tg)) k)"
  by (simp add: Pack_def Let_def fold_pack_entry)

lemma Pack_state:
  assumes "Pack tg cconv b hhvm_fn (s::'a::len func) k = (s', k')"
  defines "ms \<equiv> mem_entries cconv (cpu_struct_entries tg)"
  shows "call_conv_packs s' = call_conv_packs s @
           [\<lparr>bb = b, block_dirty_regs = DirtyRegs (GetRegFile s b),
             stores = map_of (rev (zip (map fst ms) [next_handle s..<next_handle s + length ms]))\<rparr>]"
    and "insts s' b = insts s b @
           zip [next_handle s..<next_handle s + length ms] (map (entry_store (GetRegFile s b)) ms)"
    and "next_handle s' = next_handle s + length ms"
    and "facets (GetRegFile s' c) = facets (GetRegFile s c)"
    and "c \<noteq> b \<Longrightarrow> GetRegFile s' c = GetRegFile s c \<and> insts s' c = insts s c"
    and "Predecessors s' = Predecessors s \<and> Successors s' = Successors s"
    and "bit (DirtyRegs (GetRegFile s' b)) n \<longleftrightarrow>
           bit (DirtyRegs (GetRegFile s b)) n \<and> n \<notin> entry_bit tg ` set ms"
    and "bit (CleanedRegs (GetRegFile s' b)) n \<longleftrightarrow>
           bit (CleanedRegs (GetRegFile s b)) n \<or> (n \<in> entry_bit tg ` set ms \<and> n < LENGTH('a))"
    and "k' = fold (host_sink hhvm_fn (GetRegFile s b)) (host_entries cconv (cpu_struct_entries tg)) k"
proof -
  let ?s0 = "s\<lparr>call_conv_packs := call_conv_packs s @
            [\<lparr>bb = b, block_dirty_regs = DirtyRegs (GetRegFile s b), stores = Map.empty\<rparr>]\<rparr>"
  let ?pi = "length (call_conv_packs s)"
  from assms(1) have s': "s' = fold (pack_mem_step tg b ?pi) ms ?s0"
    and k': "k' = fold (host_sink hhvm_fn (GetRegFile s b)) (host_entries cconv (cpu_struct_entries tg)) k"
    by (simp_all add: Pack_unfold ms_def)
  show "k' = fold (host_sink hhvm_fn (GetRegFile s b)) (host_entries cconv (cpu_struct_entries tg)) k"
    by (rule k')
  have l: "?pi < length (call_conv_packs ?s0)" by simp
  show "call_conv_packs s' = call_conv_packs s @
           [\<lparr>bb = b, block_dirty_regs = DirtyRegs (GetRegFile s b),
             stores = map_of (rev (zip (map fst ms) [next_handle s..<next_handle s + length ms]))\<rparr>]"
    unfolding s' fold_mem_packs [OF l] by simp
  show "insts s' b = insts s b @
           zip [next_handle s..<next_handle s + length ms] (map (entry_store (GetRegFile s b)) ms)"
    unfolding s' fold_mem_insts by simp
  show "next_handle s' = next_handle s + length ms"
    unfolding s' by (simp add: fold_mem_frame)
  show "facets (GetRegFile s' c) = facets (GetRegFile s c)"
    unfolding s' by (simp add: fold_mem_frame)
  show "c \<noteq> b \<Longrightarrow> GetRegFile s' c = GetRegFile s c \<and> insts s' c = insts s c"
    unfolding s' by (simp add: fold_mem_other_block)
  show "Predecessors s' = Predecessors s \<and> Successors s' = Successors s"
    unfolding s' by (simp add: fold_mem_frame)
  show "bit (DirtyRegs (GetRegFile s' b)) n \<longleftrightarrow>
           bit (DirtyRegs (GetRegFile s b)) n \<and> n \<notin> entry_bit tg ` set ms"
    unfolding s' fold_mem_dirty by simp
  show "bit (CleanedRegs (GetRegFile s' b)) n \<longleftrightarrow>
           bit (CleanedRegs (GetRegFile s b)) n \<or> (n \<in> entry_bit tg ` set ms \<and> n < LENGTH('a))"
    unfolding s' fold_mem_cleaned by simp
qed

lemma host_slot_not_mem:
  assumes dist: "distinct (map fst es)" and e: "e \<in> set es" and h: "is_host cconv e"
  shows "fst e \<notin> fst ` set (mem_entries cconv es)"
proof
  assume "fst e \<in> fst ` set (mem_entries cconv es)"
  then obtain e' where e': "e' \<in> set es" "\<not> is_host cconv e'" "fst e' = fst e"
    by (auto simp: mem_entries_def)
  with dist e have "e' = e" by (metis eq_key_imp_eq_value prod.collapse)
  with e' h show False by simp
qed

text \<open>
  C3, amended. One call of \<open>Pack\<close> appends exactly one Pack Record, which holds the
  block and the registers dirty at call time. With unique slot indices in the registry:
  every entry that is not host-mapped under \<open>HHVM\<close> has its value stored to its slot,
  the handle of the store recorded under the slot index, its dirty bit false and its
  cleaned bit true (for a bit index inside the register set); every host-mapped entry
  under \<open>HHVM\<close> is handed to the sink, in registry order, no store is emitted or
  recorded for its slot, and every bit that is not the bit of a stored entry, dirty or
  cleaned, is left as it was.
\<close>

theorem Pack_effect:
  assumes P: "Pack tg cconv b hhvm_fn (s::'a::len func) k = (s', k')"
    and dist: "distinct (map fst (cpu_struct_entries tg))"
  shows "\<exists>p. call_conv_packs s' = call_conv_packs s @ [p] \<and> bb p = b
      \<and> block_dirty_regs p = DirtyRegs (GetRegFile s b)
      \<and> (\<forall>(sptr_idx, reg, facet)\<in>set (cpu_struct_entries tg).
           if cconv = HHVM \<and> hhvm_is_host_reg reg
           then stores p sptr_idx = None
             \<and> (\<forall>h v. (h, StoreInst v sptr_idx) \<in> set (insts s' b)
                    \<longrightarrow> (h, StoreInst v sptr_idx) \<in> set (insts s b))
           else (\<exists>h. stores p sptr_idx = Some h
                   \<and> (h, StoreInst (GetReg (GetRegFile s b) reg facet) sptr_idx) \<in> set (insts s' b))
             \<and> \<not> bit (DirtyRegs (GetRegFile s' b)) (RegisterSetBitIdx tg reg facet)
             \<and> (RegisterSetBitIdx tg reg facet < LENGTH('a)
                  \<longrightarrow> bit (CleanedRegs (GetRegFile s' b)) (RegisterSetBitIdx tg reg facet)))
      \<and> k' = fold (host_sink hhvm_fn (GetRegFile s b)) (host_entries cconv (cpu_struct_entries tg)) k
      \<and> (\<forall>n. n \<notin> entry_bit tg ` set (mem_entries cconv (cpu_struct_entries tg)) \<longrightarrow>
           bit (DirtyRegs (GetRegFile s' b)) n = bit (DirtyRegs (GetRegFile s b)) n
           \<and> bit (CleanedRegs (GetRegFile s' b)) n = bit (CleanedRegs (GetRegFile s b)) n)"
proof -
  let ?es = "cpu_struct_entries tg"
  let ?ms = "mem_entries cconv ?es"
  let ?nh = "next_handle s"
  let ?p = "\<lparr>bb = b, block_dirty_regs = DirtyRegs (GetRegFile s b),
             stores = map_of (rev (zip (map fst ?ms) [?nh..<?nh + length ?ms]))\<rparr>"
  note st = Pack_state [OF P]
  have dm: "distinct (map fst ?ms)"
    unfolding mem_entries_def using dist by (rule distinct_map_filter)
  have entry: "if cconv = HHVM \<and> hhvm_is_host_reg reg
           then stores ?p sptr_idx = None
             \<and> (\<forall>h v. (h, StoreInst v sptr_idx) \<in> set (insts s' b)
                    \<longrightarrow> (h, StoreInst v sptr_idx) \<in> set (insts s b))
           else (\<exists>h. stores ?p sptr_idx = Some h
                   \<and> (h, StoreInst (GetReg (GetRegFile s b) reg facet) sptr_idx) \<in> set (insts s' b))
             \<and> \<not> bit (DirtyRegs (GetRegFile s' b)) (RegisterSetBitIdx tg reg facet)
             \<and> (RegisterSetBitIdx tg reg facet < LENGTH('a)
                  \<longrightarrow> bit (CleanedRegs (GetRegFile s' b)) (RegisterSetBitIdx tg reg facet))"
    if e: "(sptr_idx, reg, facet) \<in> set ?es" for sptr_idx reg facet
  proof (cases "cconv = HHVM \<and> hhvm_is_host_reg reg")
    case True
    then have h: "is_host cconv (sptr_idx, reg, facet)" by (simp add: is_host_def)
    from host_slot_not_mem [OF dist e h] have n: "sptr_idx \<notin> fst ` set ?ms" by simp
    then have 1: "stores ?p sptr_idx = None" by (simp add: not_stored_handle)
    have 2: "(h, StoreInst v sptr_idx) \<in> set (insts s b)"
      if "(h, StoreInst v sptr_idx) \<in> set (insts s' b)" for h v
    proof (rule ccontr)
      assume "(h, StoreInst v sptr_idx) \<notin> set (insts s b)"
      with that have "(h, StoreInst v sptr_idx)
          \<in> set (zip [?nh..<?nh + length ?ms] (map (entry_store (GetRegFile s b)) ?ms))"
        by (simp add: st(2))
      then have "StoreInst v sptr_idx \<in> entry_store (GetRegFile s b) ` set ?ms"
        by (auto dest: set_zip_rightD)
      then have "sptr_idx \<in> fst ` set ?ms" by (auto simp: entry_store_def)
      with n show False by simp
    qed
    from 1 2 show ?thesis unfolding if_P [OF True] by blast
  next
    case False
    then have "\<not> is_host cconv (sptr_idx, reg, facet)" by (simp add: is_host_def)
    with e have m: "(sptr_idx, reg, facet) \<in> set ?ms" by (simp add: mem_entries_def)
    from stored_handle [OF dm m, of ?nh "entry_store (GetRegFile s b)"]
    have 1: "\<exists>h. stores ?p sptr_idx = Some h
        \<and> (h, StoreInst (GetReg (GetRegFile s b) reg facet) sptr_idx) \<in> set (insts s' b)"
      by (auto simp: st(2) entry_store_def entry_val_def)
    from m have i: "RegisterSetBitIdx tg reg facet \<in> entry_bit tg ` set ?ms"
      by (force simp: entry_bit_def)
    then have 2: "\<not> bit (DirtyRegs (GetRegFile s' b)) (RegisterSetBitIdx tg reg facet)"
      by (simp add: st(7))
    from i have 3: "RegisterSetBitIdx tg reg facet < LENGTH('a)
        \<longrightarrow> bit (CleanedRegs (GetRegFile s' b)) (RegisterSetBitIdx tg reg facet)"
      by (simp add: st(8))
    from 1 2 3 show ?thesis unfolding if_not_P [OF False] by blast
  qed
  have bits: "\<forall>n. n \<notin> entry_bit tg ` set ?ms \<longrightarrow>
           bit (DirtyRegs (GetRegFile s' b)) n = bit (DirtyRegs (GetRegFile s b)) n
           \<and> bit (CleanedRegs (GetRegFile s' b)) n = bit (CleanedRegs (GetRegFile s b)) n"
    by (simp add: st(7) st(8))
  have "call_conv_packs s' = call_conv_packs s @ [?p]" by (rule st(1))
  moreover have "bb ?p = b" "block_dirty_regs ?p = DirtyRegs (GetRegFile s b)" by simp_all
  moreover from entry have "\<forall>(sptr_idx, reg, facet)\<in>set ?es.
           if cconv = HHVM \<and> hhvm_is_host_reg reg
           then stores ?p sptr_idx = None
             \<and> (\<forall>h v. (h, StoreInst v sptr_idx) \<in> set (insts s' b)
                    \<longrightarrow> (h, StoreInst v sptr_idx) \<in> set (insts s b))
           else (\<exists>h. stores ?p sptr_idx = Some h
                   \<and> (h, StoreInst (GetReg (GetRegFile s b) reg facet) sptr_idx) \<in> set (insts s' b))
             \<and> \<not> bit (DirtyRegs (GetRegFile s' b)) (RegisterSetBitIdx tg reg facet)
             \<and> (RegisterSetBitIdx tg reg facet < LENGTH('a)
                  \<longrightarrow> bit (CleanedRegs (GetRegFile s' b)) (RegisterSetBitIdx tg reg facet))"
    by blast
  ultimately show ?thesis using st(9) bits by blast
qed

lemmas pack_eval =
  Pack_unfold mem_entries_def host_entries_def is_host_def hhvm_is_host_reg_def
  pack_mem_step_def host_sink_def entry_bit_def entry_val_def entry_store_def GetReg_def

lemma Pack_ex_func_insts:
  "insts (fst (Pack ex_target_host HHVM 0 ret_sink ex_func (Inr hhvm_ret0))) 0 = [(0, StoreInst (OtherVal 102) 2)]"
  by (simp add: pack_eval ex_target_host_def ex_func_def ex_regfile_def)

lemma Pack_ex_func_sink:
  "snd (Pack ex_target_host HHVM 0 ret_sink ex_func (Inr hhvm_ret0)) =
    Inr [OtherVal 100, NullVal, NullVal, NullVal, NullVal, NullVal, NullVal, NullVal,
         OtherVal 101, NullVal, NullVal, NullVal, UndefValue, NullVal]"
  by (simp add: pack_eval ex_target_host_def ex_func_def ex_regfile_def hhvm_ret0_def ret_sink_def hhvm_ret_index_def
      hhvm_ret_indices_def hhvm_is_host_reg_def vec_set_def eval_nat_numeral)

lemma Pack_ex_func_dirty:
  "DirtyRegs (GetRegFile (fst (Pack ex_target_host HHVM 0 ret_sink ex_func (Inr hhvm_ret0))) 0) = 1
   \<and> CleanedRegs (GetRegFile (fst (Pack ex_target_host HHVM 0 ret_sink ex_func (Inr hhvm_ret0))) 0) = 0x1000"
  by (simp add: pack_eval ex_target_host_def ex_func_def ex_regfile_def)

theorem Pack_effect_witness:
  "distinct (map fst (cpu_struct_entries ex_target_host))
   \<and> (\<exists>p. call_conv_packs (fst (Pack ex_target_host HHVM 0 ret_sink ex_func (Inr hhvm_ret0)))
           = call_conv_packs ex_func @ [p]
        \<and> bb p = 0 \<and> block_dirty_regs p = 0x1001
        \<and> stores p 0 = None \<and> stores p 1 = None \<and> stores p 2 = Some 0)
   \<and> insts (fst (Pack ex_target_host HHVM 0 ret_sink ex_func (Inr hhvm_ret0))) 0 = [(0, StoreInst (OtherVal 102) 2)]
   \<and> \<not> bit (DirtyRegs (GetRegFile (fst (Pack ex_target_host HHVM 0 ret_sink ex_func (Inr hhvm_ret0))) 0)) (12::nat)
   \<and> bit (CleanedRegs (GetRegFile (fst (Pack ex_target_host HHVM 0 ret_sink ex_func (Inr hhvm_ret0))) 0)) (12::nat)
   \<and> snd (Pack ex_target_host HHVM 0 ret_sink ex_func (Inr hhvm_ret0)) =
       Inr [OtherVal 100, NullVal, NullVal, NullVal, NullVal, NullVal, NullVal, NullVal,
            OtherVal 101, NullVal, NullVal, NullVal, UndefValue, NullVal]"
proof -
  let ?PK = "Pack ex_target_host HHVM 0 ret_sink ex_func (Inr hhvm_ret0)"
  have d: "distinct (map fst (cpu_struct_entries ex_target_host))" by (simp add: ex_target_host_def)
  have P: "?PK = (fst ?PK, snd ?PK)" by simp
  from Pack_effect [OF P d] obtain p where
    p: "call_conv_packs (fst ?PK) = call_conv_packs ex_func @ [p]" "bb p = 0"
      "block_dirty_regs p = DirtyRegs (GetRegFile ex_func 0)"
    and a: "\<forall>(sptr_idx, reg, facet)\<in>set (cpu_struct_entries ex_target_host).
           if HHVM = HHVM \<and> hhvm_is_host_reg reg
           then stores p sptr_idx = None
             \<and> (\<forall>h v. (h, StoreInst v sptr_idx) \<in> set (insts (fst ?PK) 0)
                    \<longrightarrow> (h, StoreInst v sptr_idx) \<in> set (insts ex_func 0))
           else (\<exists>h. stores p sptr_idx = Some h
                   \<and> (h, StoreInst (GetReg (GetRegFile ex_func 0) reg facet) sptr_idx)
                       \<in> set (insts (fst ?PK) 0))
             \<and> \<not> bit (DirtyRegs (GetRegFile (fst ?PK) 0)) (RegisterSetBitIdx ex_target_host reg facet)
             \<and> (RegisterSetBitIdx ex_target_host reg facet < LENGTH(32)
                  \<longrightarrow> bit (CleanedRegs (GetRegFile (fst ?PK) 0)) (RegisterSetBitIdx ex_target_host reg facet))"
    by blast
  from a have "stores p 0 = None" "stores p 1 = None"
    and "\<exists>h. stores p 2 = Some h
          \<and> (h, StoreInst (GetReg (GetRegFile ex_func 0) (GP 12) (Facet 0)) 2) \<in> set (insts (fst ?PK) 0)"
    and "\<not> bit (DirtyRegs (GetRegFile (fst ?PK) 0)) (12::nat)"
    and "bit (CleanedRegs (GetRegFile (fst ?PK) 0)) (12::nat)"
    by (simp_all add: ex_target_host_def hhvm_is_host_reg_def)
  moreover from p(3) have "block_dirty_regs p = 0x1001" by (simp add: ex_func_def ex_regfile_def)
  ultimately show ?thesis
    using d p(1,2) Pack_ex_func_sink by (auto simp: Pack_ex_func_insts)
qed

text \<open>
  C3, as the specification states it, fails in its last part: \<open>Pack\<close> does not mark a
  host-mapped register clean under \<open>HHVM\<close>. The loop continues with the next entry
  before it touches the register sets, so a host-mapped register that was dirty stays
  dirty and its cleaned bit stays unset.
\<close>

theorem Pack_host_register_counterexample:
  "(1, GP 0, Facet 0) \<in> set (cpu_struct_entries ex_target_host) \<and> hhvm_is_host_reg (GP 0)
   \<and> bit (DirtyRegs (GetRegFile ex_func 0)) (RegisterSetBitIdx ex_target_host (GP 0) (Facet 0))
   \<and> bit (DirtyRegs (GetRegFile (fst (Pack ex_target_host HHVM 0 ret_sink ex_func (Inr hhvm_ret0))) 0))
        (RegisterSetBitIdx ex_target_host (GP 0) (Facet 0))
   \<and> \<not> bit (CleanedRegs (GetRegFile (fst (Pack ex_target_host HHVM 0 ret_sink ex_func (Inr hhvm_ret0))) 0))
        (RegisterSetBitIdx ex_target_host (GP 0) (Facet 0))"
  by (simp add: Pack_ex_func_dirty) (simp add: ex_target_host_def ex_func_def ex_regfile_def hhvm_is_host_reg_def)

section \<open>State unpacker\<close>

lemma unset_bit_twice: "unset_bit n (unset_bit n (w::'a::len word)) = unset_bit n w"
  by (rule bit_word_eqI) (auto simp: bit_unset_bit_iff)

lemma unset_set_bit: "unset_bit n (set_bit n (w::'a::len word)) = unset_bit n w"
  by (rule bit_word_eqI) (auto simp: bit_unset_bit_iff bit_set_bit_iff)

lemma unpack_entry_Inl: "unpack_entry tg cconv b hhvm_fn e (Inl err) = Inl err"
  by (cases e) (simp add: unpack_entry_def)

lemma fold_unpack_Inl: "fold (unpack_entry tg cconv b hhvm_fn) es (Inl err) = Inl err"
  by (induction es) (simp_all add: unpack_entry_Inl)

lemma unpack_entry_host:
  "is_host cconv e \<Longrightarrow>
    unpack_entry tg cconv b hhvm_fn e (Inr s) =
      (case hhvm_fn (fst (snd e)) of Inl err \<Rightarrow> Inl err
       | Inr v \<Rightarrow> Inr (unpack_host_step tg b e v s))"
  by (cases e)
     (auto simp: unpack_entry_def is_host_def unpack_host_step_def set_regfile_def SetReg_def
        entry_bit_def split: sum.splits)

lemma unpack_entry_mem:
  "\<not> is_host cconv e \<Longrightarrow>
    unpack_entry tg cconv b hhvm_fn e (Inr s) = Inr (unpack_mem_step tg b e s)"
  by (cases e)
     (auto simp: unpack_entry_def is_host_def unpack_mem_step_def set_regfile_def SetReg_def
        entry_bit_def emit_def Let_def unset_bit_twice unset_set_bit)

text \<open>One successful iteration, whatever the kind of the entry.\<close>

lemma unpack_entry_Inr:
  assumes "unpack_entry tg cconv b hhvm_fn e (Inr s) = Inr st1"
  shows "(is_host cconv e \<and> (\<exists>v. hhvm_fn (fst (snd e)) = Inr v \<and> st1 = unpack_host_step tg b e v s))
    \<or> (\<not> is_host cconv e \<and> st1 = unpack_mem_step tg b e s)"
proof (cases "is_host cconv e")
  case True
  with assms show ?thesis by (auto simp: unpack_entry_host split: sum.splits)
next
  case False
  with assms show ?thesis by (simp add: unpack_entry_mem)
qed

lemma fold_unpack_Cons:
  assumes "fold (unpack_entry tg cconv b hhvm_fn) (e # es) (Inr s) = Inr s'"
  obtains st1 where "unpack_entry tg cconv b hhvm_fn e (Inr s) = Inr st1"
    and "fold (unpack_entry tg cconv b hhvm_fn) es (Inr st1) = Inr s'"
proof (cases "unpack_entry tg cconv b hhvm_fn e (Inr s)")
  case (Inl err)
  with assms show ?thesis by (simp add: fold_unpack_Inl)
next
  case (Inr st1)
  with assms that show ?thesis by simp
qed

lemma unpack_step_fields:
  assumes "unpack_entry tg cconv b hhvm_fn e (Inr s) = Inr st1"
  shows "dom (facets (GetRegFile st1 b)) = insert (snd e) (dom (facets (GetRegFile s b)))"
    and "n \<noteq> entry_bit tg e \<Longrightarrow>
          bit (DirtyRegs (GetRegFile st1 b)) n \<longleftrightarrow> bit (DirtyRegs (GetRegFile s b)) n"
    and "set (insts s b) \<subseteq> set (insts st1 b)"
    and "k \<noteq> snd e \<Longrightarrow> facets (GetRegFile st1 b) k = facets (GetRegFile s b) k"
  using unpack_entry_Inr [OF assms]
  by (auto simp: unpack_host_step_def unpack_mem_step_def bit_unset_bit_iff bit_set_bit_iff
      split: if_splits)






lemma fold_unpack_insts:
  "fold (unpack_entry tg cconv b hhvm_fn) es (Inr s) = Inr s' \<Longrightarrow>
    set (insts s b) \<subseteq> set (insts s' b)"
proof (induction es arbitrary: s)
  case Nil
  then show ?case by simp
next
  case (Cons e es)
  from Cons.prems obtain st1 where 1: "unpack_entry tg cconv b hhvm_fn e (Inr s) = Inr st1"
    and 2: "fold (unpack_entry tg cconv b hhvm_fn) es (Inr st1) = Inr s'"
    by (rule fold_unpack_Cons)
  from Cons.IH [OF 2] unpack_step_fields(3) [OF 1] show ?case by blast
qed

lemma fold_unpack_hostval:
  "fold (unpack_entry tg cconv b hhvm_fn) es (Inr s) = Inr s'
    \<Longrightarrow> cconv = HHVM \<and> hhvm_is_host_reg (fst key)
    \<Longrightarrow> key \<in> snd ` set es \<or> hostval hhvm_fn b s key
    \<Longrightarrow> hostval hhvm_fn b s' key"
proof (induction es arbitrary: s)
  case Nil
  then show ?case by simp
next
  case (Cons e es)
  from Cons.prems(1) obtain st1 where 1: "unpack_entry tg cconv b hhvm_fn e (Inr s) = Inr st1"
    and 2: "fold (unpack_entry tg cconv b hhvm_fn) es (Inr st1) = Inr s'"
    by (rule fold_unpack_Cons)
  have "key \<in> snd ` set es \<or> hostval hhvm_fn b st1 key"
  proof (cases "key \<in> snd ` set es")
    case True
    then show ?thesis by simp
  next
    case False
    show ?thesis
    proof (cases "key = snd e")
      case True
      with Cons.prems(2) have "is_host cconv e" by (simp add: is_host_def)
      with unpack_entry_Inr [OF 1] obtain v where
        "hhvm_fn (fst (snd e)) = Inr v" "st1 = unpack_host_step tg b e v s" by blast
      with True have "hostval hhvm_fn b st1 key"
        by (simp add: hostval_def unpack_host_step_def)
      then show ?thesis by simp
    next
      case ne: False
      with False Cons.prems(3) have "hostval hhvm_fn b s key" by auto
      with unpack_step_fields(4) [OF 1 ne] show ?thesis by (simp add: hostval_def)
    qed
  qed
  from Cons.IH [OF 2 Cons.prems(2) this] show ?case .
qed


lemma fold_unpack_total:
  "(\<And>e. e \<in> set es \<Longrightarrow> is_host cconv e \<Longrightarrow> \<exists>v. hhvm_fn (fst (snd e)) = Inr v)
    \<Longrightarrow> \<exists>s'. fold (unpack_entry tg cconv b hhvm_fn) es (Inr s) = Inr s'"
proof (induction es arbitrary: s)
  case Nil
  show ?case by simp
next
  case (Cons e es)
  have "\<exists>st1. unpack_entry tg cconv b hhvm_fn e (Inr s) = Inr st1"
  proof (cases "is_host cconv e")
    case True
    with Cons.prems [of e] obtain v where "hhvm_fn (fst (snd e)) = Inr v" by auto
    with True show ?thesis by (simp add: unpack_entry_host)
  next
    case False
    then show ?thesis by (simp add: unpack_entry_mem)
  qed
  then obtain st1 where 1: "unpack_entry tg cconv b hhvm_fn e (Inr s) = Inr st1" by blast
  from Cons.IH [of st1] Cons.prems
  obtain s' where "fold (unpack_entry tg cconv b hhvm_fn) es (Inr st1) = Inr s'" by auto
  with 1 show ?case by simp
qed






section \<open>Boundary code generation: calls, returns and the instruction pointer\<close>

lemma arg_sink_index: "arg_sink = index_sink hhvm_arg_index"
  by (simp add: fun_eq_iff arg_sink_def index_sink_def)

lemma ret_sink_index: "ret_sink = index_sink hhvm_ret_index"
  by (simp add: fun_eq_iff ret_sink_def index_sink_def)

lemma fold_index_sink_Inl:
  "fold (host_sink (index_sink idxf) rf) hs (Inl err) = Inl err"
  by (induction hs) (simp_all add: host_sink_def index_sink_def)

lemma index_sink_step:
  assumes "fold (host_sink (index_sink idxf) rf) (e # hs) (Inr vec) = Inr vec'"
  obtains i where "idxf (fst (snd e)) = Some i" "i < length vec"
    and "fold (host_sink (index_sink idxf) rf) hs (Inr (vec[i := entry_val rf e])) = Inr vec'"
proof (cases "idxf (fst (snd e))")
  case None
  with assms show ?thesis by (simp add: host_sink_def index_sink_def fold_index_sink_Inl)
next
  case (Some i)
  show ?thesis
  proof (cases "i < length vec")
    case True
    with Some assms that show ?thesis by (simp add: host_sink_def index_sink_def vec_set_def)
  next
    case False
    with Some assms show ?thesis
      by (simp add: host_sink_def index_sink_def vec_set_def fold_index_sink_Inl)
  qed
qed

lemma fold_index_sink_keep:
  "fold (host_sink (index_sink idxf) rf) hs (Inr vec) = Inr vec'
    \<Longrightarrow> (\<And>e. e \<in> set hs \<Longrightarrow> idxf (fst (snd e)) \<noteq> Some j)
    \<Longrightarrow> length vec' = length vec \<and> vec' ! j = vec ! j"
proof (induction hs arbitrary: vec)
  case Nil
  then show ?case by simp
next
  case (Cons e hs)
  from Cons.prems(1) obtain i where i: "idxf (fst (snd e)) = Some i" "i < length vec"
    and f: "fold (host_sink (index_sink idxf) rf) hs (Inr (vec[i := entry_val rf e])) = Inr vec'"
    by (rule index_sink_step)
  from Cons.prems(2) [of e] i have "i \<noteq> j" by auto
  with Cons.IH [OF f] Cons.prems(2) show ?case by simp
qed

lemma fold_index_sink_ip:
  assumes inj0: "\<And>reg. idxf reg = Some 0 \<Longrightarrow> reg = IP"
  shows "fold (host_sink (index_sink idxf) rf) hs (Inr vec) = Inr vec'
    \<Longrightarrow> (\<And>e. e \<in> set hs \<Longrightarrow> fst (snd e) = IP \<Longrightarrow> entry_val rf e = x)
    \<Longrightarrow> (\<exists>e\<in>set hs. fst (snd e) = IP \<and> idxf IP = Some 0) \<or> (0 < length vec \<and> vec ! 0 = x)
    \<Longrightarrow> 0 < length vec' \<and> vec' ! 0 = x"
proof (induction hs arbitrary: vec)
  case Nil
  then show ?case by simp
next
  case (Cons e hs)
  from Cons.prems(1) obtain i where i: "idxf (fst (snd e)) = Some i" "i < length vec"
    and f: "fold (host_sink (index_sink idxf) rf) hs (Inr (vec[i := entry_val rf e])) = Inr vec'"
    by (rule index_sink_step)
  let ?vec1 = "vec[i := entry_val rf e]"
  have "(\<exists>e\<in>set hs. fst (snd e) = IP \<and> idxf IP = Some 0) \<or> (0 < length ?vec1 \<and> ?vec1 ! 0 = x)"
  proof (cases "\<exists>e\<in>set hs. fst (snd e) = IP \<and> idxf IP = Some 0")
    case True
    then show ?thesis by simp
  next
    case False
    show ?thesis
    proof (cases "fst (snd e) = IP")
      case True
      with False Cons.prems(3) i have "i = 0 \<or> (0 < length vec \<and> vec ! 0 = x)" by auto
      moreover from True Cons.prems(2) [of e] have "entry_val rf e = x" by simp
      ultimately show ?thesis using i by (cases "i = 0") auto
    next
      case ne: False
      with inj0 [of "fst (snd e)"] i have "i \<noteq> 0" by auto
      moreover from ne False Cons.prems(3) have "0 < length vec \<and> vec ! 0 = x" by auto
      ultimately show ?thesis by simp
    qed
  qed
  from Cons.IH [OF f _ this] Cons.prems(2) show ?case by simp
qed

lemma wf_handlesD: "wf_handles s \<Longrightarrow> hi \<in> set (insts s c) \<Longrightarrow> fst hi < next_handle s"
  by (simp add: wf_handles_def)

lemma emit_modify:
  assumes "wf_handles s"
  shows "modify_inst (next_handle s) f (snd (emit b i s)) = snd (emit b (f i) s)"
proof -
  have m: "map (\<lambda>hi. if fst hi = next_handle s then (fst hi, f (snd hi)) else hi) (insts s c) = insts s c"
    for c
  proof (rule map_idI)
    fix hi assume "hi \<in> set (insts s c)"
    from wf_handlesD [OF assms this]
    show "(if fst hi = next_handle s then (fst hi, f (snd hi)) else hi) = hi" by simp
  qed
  show ?thesis
    by (simp add: modify_inst_def emit_def fun_eq_iff m)
qed

lemma wf_handles_Pack:
  assumes "wf_handles s" and P: "Pack tg cconv b hhvm_fn s k = (s', k')"
  shows "wf_handles s'"
  unfolding wf_handles_def
proof (intro allI ballI)
  fix c hi assume h: "hi \<in> set (insts s' c)"
  note st = Pack_state [OF P]
  show "fst hi < next_handle s'"
  proof (cases "c = b")
    case False
    with h st(5) [of c] have "hi \<in> set (insts s c)" by simp
    from wf_handlesD [OF assms(1) this] show ?thesis by (simp add: st(3))
  next
    case True
    with h have "hi \<in> set (insts s b) \<or> hi \<in> set (zip
        [next_handle s..<next_handle s + length (mem_entries cconv (cpu_struct_entries tg))]
        (map (entry_store (GetRegFile s b)) (mem_entries cconv (cpu_struct_entries tg))))"
      by (simp add: st(2))
    then show ?thesis
    proof
      assume "hi \<in> set (insts s b)"
      from wf_handlesD [OF assms(1) this] show ?thesis by (simp add: st(3))
    next
      assume z: "hi \<in> set (zip
        [next_handle s..<next_handle s + length (mem_entries cconv (cpu_struct_entries tg))]
        (map (entry_store (GetRegFile s b)) (mem_entries cconv (cpu_struct_entries tg))))"
      obtain h i where hi: "hi = (h, i)" by (cases hi) auto
      from z have "h \<in> set [next_handle s..<next_handle s + length (mem_entries cconv (cpu_struct_entries tg))]"
        unfolding hi by (rule set_zip_leftD)
      then show ?thesis by (simp add: hi st(3))
    qed
  qed
qed

lemma fst_emit: "fst (emit b i s) = next_handle s"
  by (simp add: emit_def)

lemma Call_Pack:
  assumes "Call tg cconv fn b tail_call s = Inr (call, s')"
  obtains call_args0 st1 call_args where
    "vec_set (replicate (arg_size fn) NullVal) (CpuStructParamIdx cconv) SptrRaw = Inr call_args0"
    and "Pack tg cconv b arg_sink s (Inr call_args0) = (st1, Inr call_args)"
proof -
  from assms obtain call_args0 where
    a: "vec_set (replicate (arg_size fn) NullVal) (CpuStructParamIdx cconv) SptrRaw = Inr call_args0"
    by (cases "vec_set (replicate (arg_size fn) NullVal) (CpuStructParamIdx cconv) SptrRaw")
       (simp_all add: Call_def)
  obtain st1 r where p: "Pack tg cconv b arg_sink s (Inr call_args0) = (st1, r)"
    by (cases "Pack tg cconv b arg_sink s (Inr call_args0)") auto
  from assms a p obtain call_args where r: "r = Inr call_args"
    by (cases r) (simp_all add: Call_def)
  from a p r that show ?thesis by simp
qed

lemma Call_tail_unfold:
  assumes C: "Call tg cconv fn b True s = Inr (call, s')"
    and a: "vec_set (replicate (arg_size fn) NullVal) (CpuStructParamIdx cconv) SptrRaw = Inr call_args0"
    and p: "Pack tg cconv b arg_sink s (Inr call_args0) = (st1, Inr call_args)"
  shows "call = next_handle st1"
    and "s' = snd (emit b (if getReturnType (getFunctionType fn) = VoidTy then RetVoid
                       else Ret (InstrVal call))
            (modify_inst call (setTailCallKind_instr TCK_MustTail) (emit_call fn call_args b st1)))"
proof -
  from C show c: "call = next_handle st1"
    by (simp add: Call_def a p Let_def split_def fst_emit split: if_splits)
  from C show "s' = snd (emit b (if getReturnType (getFunctionType fn) = VoidTy then RetVoid
                       else Ret (InstrVal call))
            (modify_inst call (setTailCallKind_instr TCK_MustTail) (emit_call fn call_args b st1)))"
    unfolding c emit_call_def
    by (simp add: Call_def a p Let_def split_def fst_emit split: if_splits)
qed

lemma Call_return_unfold:
  assumes C: "Call tg cconv fn b False s = Inr (call, s')"
    and a: "vec_set (replicate (arg_size fn) NullVal) (CpuStructParamIdx cconv) SptrRaw = Inr call_args0"
    and p: "Pack tg cconv b arg_sink s (Inr call_args0) = (st1, Inr call_args)"
    and h: "cconv = HHVM"
  shows "call = next_handle st1"
    and "Unpack tg cconv b
        (ret_source (fst (extract_fields call b [0..<14] ([], emit_call fn call_args b st1))))
        (snd (extract_fields call b [0..<14] ([], emit_call fn call_args b st1))) = Inr s'"
proof -
  let ?ef = "extract_fields (next_handle st1) b [0..<14] ([], emit_call fn call_args b st1)"
  from C have "(case Unpack tg cconv b (ret_source (fst ?ef)) (snd ?ef) of
      Inl err \<Rightarrow> Inl err | Inr s6 \<Rightarrow> Inr (next_handle st1, s6)) = Inr (call, s')"
    unfolding emit_call_def
    by (simp add: Call_def a p Let_def split_def fst_emit if_P [OF h] cong del: sum.case_cong_weak)
  then have "call = next_handle st1 \<and> Unpack tg cconv b (ret_source (fst ?ef)) (snd ?ef) = Inr s'"
    by (cases "Unpack tg cconv b (ret_source (fst ?ef)) (snd ?ef)") simp_all
  then show "call = next_handle st1"
    and "Unpack tg cconv b
        (ret_source (fst (extract_fields call b [0..<14] ([], emit_call fn call_args b st1))))
        (snd (extract_fields call b [0..<14] ([], emit_call fn call_args b st1))) = Inr s'"
    by simp_all
qed

lemma emit_call_fresh:
  assumes "wf_handles st"
  shows "emit_call fn call_args b st
    = snd (emit b (CallInst fn call_args (getCallingConv fn) (getAttributes fn) TCK_None) st)"
  unfolding emit_call_def by (simp add: emit_modify [OF assms])

lemma emit_call_member:
  "(next_handle st, CallInst fn call_args (getCallingConv fn) (getAttributes fn) TCK_None)
     \<in> set (insts (emit_call fn call_args b st) b)"
  by (simp add: emit_call_def modify_inst_def emit_def)

text \<open>
  C9. When \<open>Call\<close> is invoked with the tail-call flag and returns, the block ends with
  the call instruction, marked as a must-tail call (with the callee's calling convention
  and attributes), immediately followed by a return: a void return if the callee's return
  type is void, otherwise a return of the call's result. Nothing else is emitted after
  \<open>Pack\<close>, and the register files are those that \<open>Pack\<close> left: the register file is
  neither cleared nor repopulated, so no \<open>Unpack\<close> takes place.
\<close>

theorem Call_tail_call:
  assumes C: "Call tg cconv fn b True s = Inr (call, s')"
    and wf: "wf_handles s"
  shows "\<exists>call_args0 st1 call_args.
      Pack tg cconv b arg_sink s (Inr call_args0) = (st1, Inr call_args)
      \<and> call = next_handle st1
      \<and> insts s' b = insts st1 b @
          [(call, CallInst fn call_args (getCallingConv fn) (getAttributes fn) TCK_MustTail),
           (Suc call, if getReturnType (getFunctionType fn) = VoidTy then RetVoid
                      else Ret (InstrVal call))]
      \<and> (\<forall>c. c \<noteq> b \<longrightarrow> insts s' c = insts st1 c)
      \<and> GetRegFile s' = GetRegFile st1
      \<and> call_conv_packs s' = call_conv_packs st1
      \<and> facets (GetRegFile s' b) = facets (GetRegFile s b)"
proof -
  from C obtain call_args0 st1 call_args where
    a: "vec_set (replicate (arg_size fn) NullVal) (CpuStructParamIdx cconv) SptrRaw = Inr call_args0"
    and p: "Pack tg cconv b arg_sink s (Inr call_args0) = (st1, Inr call_args)"
    by (rule Call_Pack)
  note c = Call_tail_unfold(1) [OF C a p] and s' = Call_tail_unfold(2) [OF C a p]
  from wf_handles_Pack [OF wf p] have w: "wf_handles st1" .
  have m: "modify_inst call (setTailCallKind_instr TCK_MustTail) (emit_call fn call_args b st1)
      = snd (emit b (CallInst fn call_args (getCallingConv fn) (getAttributes fn) TCK_MustTail) st1)"
    unfolding c emit_call_fresh [OF w] by (simp add: emit_modify [OF w])
  have f: "facets (GetRegFile st1 b) = facets (GetRegFile s b)"
    by (rule Pack_state(4) [OF p])
  have "insts s' b = insts st1 b @
          [(call, CallInst fn call_args (getCallingConv fn) (getAttributes fn) TCK_MustTail),
           (Suc call, if getReturnType (getFunctionType fn) = VoidTy then RetVoid
                      else Ret (InstrVal call))]"
    and "\<forall>c. c \<noteq> b \<longrightarrow> insts s' c = insts st1 c"
    and "GetRegFile s' = GetRegFile st1"
    and "call_conv_packs s' = call_conv_packs st1"
    unfolding s' m by (simp_all add: emit_def c)
  with p c f show ?thesis by (intro exI [of _ call_args0] exI [of _ st1] exI [of _ call_args]) simp
qed

lemma hhvm_is_host_reg_IP: "hhvm_is_host_reg IP"
  by (simp add: hhvm_is_host_reg_def)

lemma hhvm_index_IP: "hhvm_arg_index IP = Some 0" "hhvm_ret_index IP = Some 0"
  by (simp_all add: hhvm_arg_index_def hhvm_ret_index_def hhvm_is_host_reg_def)

lemma Pack_sink_ip:
  assumes P: "Pack tg HHVM b (index_sink idxf) s (Inr vec) = (st1, Inr vec')"
    and ip: "ip_facet tg facet"
    and idx0: "idxf IP = Some 0" and inj0: "\<And>reg. idxf reg = Some 0 \<Longrightarrow> reg = IP"
  shows "0 < length vec' \<and> vec' ! 0 = GetReg (GetRegFile s b) IP facet"
proof (rule fold_index_sink_ip [where idxf = idxf and rf = "GetRegFile s b"
      and hs = "host_entries HHVM (cpu_struct_entries tg)" and vec = vec])
  show "idxf reg = Some 0 \<Longrightarrow> reg = IP" for reg by (rule inj0)
  show "fold (host_sink (index_sink idxf) (GetRegFile s b))
      (host_entries HHVM (cpu_struct_entries tg)) (Inr vec) = Inr vec'"
    using Pack_state(9) [OF P] by simp
  show "entry_val (GetRegFile s b) e = GetReg (GetRegFile s b) IP facet"
    if "e \<in> set (host_entries HHVM (cpu_struct_entries tg))" "fst (snd e) = IP" for e
  proof -
    from that(1) have "e \<in> set (cpu_struct_entries tg)" by (simp add: host_entries_def)
    with ip that(2) have "snd (snd e) = facet" unfolding ip_facet_def by blast
    with that(2) show ?thesis by (simp add: entry_val_def)
  qed
  from ip obtain i where "(i, IP, facet) \<in> set (cpu_struct_entries tg)"
    unfolding ip_facet_def by blast
  then have m: "(i, IP, facet) \<in> set (host_entries HHVM (cpu_struct_entries tg))"
    by (simp add: host_entries_def is_host_def hhvm_is_host_reg_IP)
  have "\<exists>e\<in>set (host_entries HHVM (cpu_struct_entries tg)). fst (snd e) = IP \<and> idxf IP = Some 0"
    by (rule bexI [OF _ m]) (simp add: idx0)
  then show "(\<exists>e\<in>set (host_entries HHVM (cpu_struct_entries tg)). fst (snd e) = IP \<and> idxf IP = Some 0)
      \<or> (0 < length vec \<and> vec ! 0 = GetReg (GetRegFile s b) IP facet)" ..
qed

lemma Pack_sink_keep:
  assumes P: "Pack tg cconv b (index_sink idxf) s (Inr vec) = (st1, Inr vec')"
    and "\<And>reg. idxf reg \<noteq> Some j"
  shows "length vec' = length vec \<and> vec' ! j = vec ! j"
proof -
  from Pack_state(9) [OF P]
  have "fold (host_sink (index_sink idxf) (GetRegFile s b))
      (host_entries cconv (cpu_struct_entries tg)) (Inr vec) = Inr vec'" by simp
  then show ?thesis by (rule fold_index_sink_keep) (rule assms(2))
qed

lemma extract_fields_insts:
  "set (insts s b) \<subseteq> set (insts (snd (extract_fields call b js (acc, s))) b)"
proof (induction js arbitrary: acc s)
  case Nil
  show ?case by simp
next
  case (Cons j js)
  have "set (insts s b) \<subseteq> set (insts (snd (emit b (ExtractValueInst (InstrVal call) j) s)) b)"
    by (auto simp: emit_def)
  also have "\<dots> \<subseteq> set (insts (snd (extract_fields call b js
      (acc @ [InstrVal (fst (emit b (ExtractValueInst (InstrVal call) j) s))],
       snd (emit b (ExtractValueInst (InstrVal call) j) s)))) b)"
    by (rule Cons.IH)
  finally show ?case by (simp add: split_def Let_def)
qed

lemma Unpack_insts:
  "Unpack tg cconv b hhvm_fn s = Inr s' \<Longrightarrow> set (insts s b) \<subseteq> set (insts s' b)"
  unfolding Unpack_def
  by (drule fold_unpack_insts) (simp add: set_regfile_def)

lemma Call_ip_arg:
  assumes C: "Call tg HHVM fn b tail_call s = Inr (call, s')" and ip: "ip_facet tg facet"
  shows "\<exists>args cc at tk. (call, CallInst fn args cc at tk) \<in> set (insts s' b)
      \<and> args ! 0 = GetReg (GetRegFile s b) IP facet \<and> args ! 1 = SptrRaw"
proof -
  from C obtain call_args0 st1 call_args where
    v: "vec_set (replicate (arg_size fn) NullVal) (CpuStructParamIdx HHVM) SptrRaw = Inr call_args0"
    and p: "Pack tg HHVM b arg_sink s (Inr call_args0) = (st1, Inr call_args)"
    by (rule Call_Pack)
  have c: "call = next_handle st1"
    using C Call_tail_unfold(1) [OF _ v p] Call_return_unfold(1) [OF _ v p refl]
    by (cases tail_call) simp_all
  from v have a0: "1 < length call_args0" "call_args0 ! 1 = SptrRaw"
    by (auto simp: vec_set_def split: if_splits)
  from p have p': "Pack tg HHVM b (index_sink hhvm_arg_index) s (Inr call_args0) = (st1, Inr call_args)"
    by (simp add: arg_sink_index)
  have i0: "hhvm_arg_index reg = Some 0 \<Longrightarrow> reg = IP" for reg
    by (drule hhvm_arg_index_cases) auto
  have i1: "hhvm_arg_index reg \<noteq> Some 1" for reg
    using hhvm_arg_index_cases [of reg 1] by auto
  from Pack_sink_ip [OF p' ip hhvm_index_IP(1) i0]
  have x0: "call_args ! 0 = GetReg (GetRegFile s b) IP facet" by simp
  from Pack_sink_keep [OF p' i1] a0 have x1: "call_args ! 1 = SptrRaw" by simp
  have m4: "(call, CallInst fn call_args (getCallingConv fn) (getAttributes fn) TCK_None)
      \<in> set (insts (emit_call fn call_args b st1) b)"
    unfolding c by (rule emit_call_member)
  show ?thesis
  proof (cases tail_call)
    case True
    with C have "Call tg HHVM fn b True s = Inr (call, s')" by simp
    note s' = Call_tail_unfold(2) [OF this v p]
    from m4 have "(call, setTailCallKind_instr TCK_MustTail
          (CallInst fn call_args (getCallingConv fn) (getAttributes fn) TCK_None))
        \<in> set (insts s' b)"
      unfolding s' by (force simp: modify_inst_def emit_def)
    with x0 x1 show ?thesis by auto
  next
    case False
    let ?s5 = "snd (extract_fields call b [0..<14] ([], emit_call fn call_args b st1))"
    from False C have "Call tg HHVM fn b False s = Inr (call, s')" by simp
    note u = Call_return_unfold(2) [OF this v p refl]
    from m4 extract_fields_insts [of "emit_call fn call_args b st1" b call "[0..<14]" "[]"]
    have "(call, CallInst fn call_args (getCallingConv fn) (getAttributes fn) TCK_None)
        \<in> set (insts ?s5 b)" by blast
    with Unpack_insts [OF u]
    have "(call, CallInst fn call_args (getCallingConv fn) (getAttributes fn) TCK_None)
        \<in> set (insts s' b)" by blast
    with x0 x1 show ?thesis by blast
  qed
qed

lemma Return_ip_field:
  assumes R: "Return tg HHVM b s = Inr (h, s')" and ip: "ip_facet tg facet"
  shows "\<exists>vals. (h, AggregateRet vals) \<in> set (insts s' b)
      \<and> vals ! 0 = GetReg (GetRegFile s b) IP facet \<and> vals ! 12 = UndefValue"
proof -
  let ?v0 = "(replicate 14 NullVal)[12 := UndefValue]"
  obtain st1 r where p: "Pack tg HHVM b ret_sink s (Inr ?v0) = (st1, r)"
    by (cases "Pack tg HHVM b ret_sink s (Inr ?v0)") auto
  from R p obtain vals where r: "r = Inr vals"
    by (cases r) (simp_all add: Return_def)
  from R p r have e: "(h, s') = emit b (AggregateRet vals) st1" by (simp add: Return_def)
  from p r have p': "Pack tg HHVM b (index_sink hhvm_ret_index) s (Inr ?v0) = (st1, Inr vals)"
    by (simp add: ret_sink_index)
  have i0: "hhvm_ret_index reg = Some 0 \<Longrightarrow> reg = IP" for reg
    by (drule hhvm_ret_index_cases) auto
  have i12: "hhvm_ret_index reg \<noteq> Some 12" for reg
    using hhvm_ret_index_cases [of reg 12] by auto
  from Pack_sink_ip [OF p' ip hhvm_index_IP(2) i0]
  have x0: "vals ! 0 = GetReg (GetRegFile s b) IP facet" by simp
  from Pack_sink_keep [OF p' i12] have x12: "vals ! 12 = UndefValue" by simp
  from e have "(h, AggregateRet vals) \<in> set (insts s' b)" by (auto simp: emit_def)
  with x0 x12 show ?thesis by blast
qed

lemma UnpackParams_ip:
  "\<exists>s'. UnpackParams tg HHVM b s = Inr s'
     \<and> (\<forall>(sptr_idx, reg, facet)\<in>set (cpu_struct_entries tg).
           reg = IP \<longrightarrow> facets (GetRegFile s' b) (IP, facet) = Some (Argument 0))"
proof -
  have "\<exists>v. param_source (fst (snd e)) = Inr v" if "is_host HHVM e" for e
  proof -
    from that have "hhvm_arg_index (fst (snd e)) \<noteq> None"
      by (simp add: is_host_def hhvm_arg_index_def)
    then show ?thesis by (auto simp: param_source_def)
  qed
  from fold_unpack_total [of "cpu_struct_entries tg" HHVM param_source tg b, OF this]
  obtain s' where u: "Unpack tg HHVM b param_source s = Inr s'"
    unfolding Unpack_def by blast
  have "facets (GetRegFile s' b) (IP, facet) = Some (Argument 0)"
    if e: "(sptr_idx, IP, facet) \<in> set (cpu_struct_entries tg)" for sptr_idx facet
  proof -
    from u have F: "fold (unpack_entry tg HHVM b param_source) (cpu_struct_entries tg)
        (Inr (set_regfile b (Clear (GetRegFile s b)) s)) = Inr s'"
      by (simp add: Unpack_def)
    from e have k: "(IP, facet) \<in> snd ` set (cpu_struct_entries tg)" by force
    from fold_unpack_hostval [OF F, of "(IP, facet)"] k
    have "hostval param_source b s' (IP, facet)" by (simp add: hhvm_is_host_reg_IP)
    then show ?thesis by (simp add: hostval_def param_source_def hhvm_index_IP)
  qed
  then have "\<forall>(sptr_idx, reg, facet)\<in>set (cpu_struct_entries tg).
           reg = IP \<longrightarrow> facets (GetRegFile s' b) (IP, facet) = Some (Argument 0)"
    by auto
  with u show ?thesis by (auto simp: UnpackParams_def)
qed

lemma fold_index_sink_total:
  "(\<And>e. e \<in> set hs \<Longrightarrow> \<exists>i. idxf (fst (snd e)) = Some i \<and> i < length vec)
    \<Longrightarrow> \<exists>vec'. fold (host_sink (index_sink idxf) rf) hs (Inr vec) = Inr vec'
          \<and> length vec' = length vec"
proof (induction hs arbitrary: vec)
  case Nil
  show ?case by simp
next
  case (Cons e hs)
  from Cons.prems [of e] obtain i where i: "idxf (fst (snd e)) = Some i" "i < length vec"
    by auto
  have "\<exists>vec'. fold (host_sink (index_sink idxf) rf) hs (Inr (vec[i := entry_val rf e])) = Inr vec'
      \<and> length vec' = length (vec[i := entry_val rf e])"
    by (rule Cons.IH) (use Cons.prems in auto)
  moreover from i have "host_sink (index_sink idxf) rf e (Inr vec) = Inr (vec[i := entry_val rf e])"
    by (simp add: host_sink_def index_sink_def vec_set_def)
  ultimately show ?case by simp
qed

lemma Pack_sink_total:
  assumes "\<And>reg. hhvm_is_host_reg reg \<Longrightarrow> \<exists>i. idxf reg = Some i \<and> i < length vec"
  shows "\<exists>st1 vec'. Pack tg cconv b (index_sink idxf) s (Inr vec) = (st1, Inr vec')
      \<and> length vec' = length vec"
proof -
  have "\<exists>i. idxf (fst (snd e)) = Some i \<and> i < length vec"
    if "e \<in> set (host_entries cconv (cpu_struct_entries tg))" for e
    using that assms [of "fst (snd e)"] by (simp add: host_entries_def is_host_def)
  from fold_index_sink_total [of "host_entries cconv (cpu_struct_entries tg)" idxf vec
      "GetRegFile s b", OF this]
  show ?thesis by (auto simp: Pack_unfold)
qed

lemma hhvm_arg_index_bound: "hhvm_is_host_reg reg \<Longrightarrow> \<exists>i. hhvm_arg_index reg = Some i \<and> i < 14"
proof -
  assume "hhvm_is_host_reg reg"
  then obtain i where i: "hhvm_arg_index reg = Some i" by (simp add: hhvm_arg_index_def)
  from hhvm_arg_index_cases [OF i] i show ?thesis by auto
qed

lemma hhvm_ret_index_bound: "hhvm_is_host_reg reg \<Longrightarrow> \<exists>i. hhvm_ret_index reg = Some i \<and> i < 14"
proof -
  assume "hhvm_is_host_reg reg"
  then obtain i where i: "hhvm_ret_index reg = Some i" by (simp add: hhvm_ret_index_def)
  from hhvm_ret_index_cases [OF i] i show ?thesis by auto
qed

lemma extract_fields_length:
  "length (fst (extract_fields call b js (v, s))) = length v + length js"
  by (induction js arbitrary: v s) (simp_all add: split_def Let_def)

lemma Unpack_ret_source_total:
  assumes "length hhvm_ret = 14"
  shows "\<exists>s'. Unpack tg cconv b (ret_source hhvm_ret) s = Inr s'"
proof -
  have "\<exists>v. ret_source hhvm_ret (fst (snd e)) = Inr v" if "is_host cconv e" for e
  proof -
    from that have "hhvm_is_host_reg (fst (snd e))" by (simp add: is_host_def)
    from hhvm_ret_index_bound [OF this] assms show ?thesis
      by (auto simp: ret_source_def vec_get_def)
  qed
  from fold_unpack_total [of "cpu_struct_entries tg" cconv "ret_source hhvm_ret" tg b, OF this]
  show ?thesis unfolding Unpack_def by blast
qed

lemma Call_returns:
  assumes h: "cconv = HHVM" and n: "14 \<le> arg_size fn"
  shows "\<exists>call s'. Call tg cconv fn b tail_call s = Inr (call, s')"
proof -
  from n h obtain call_args0 where
    a: "vec_set (replicate (arg_size fn) NullVal) (CpuStructParamIdx cconv) SptrRaw = Inr call_args0"
    and l: "length call_args0 = arg_size fn"
    by (simp add: vec_set_def)
  have "\<exists>i. hhvm_arg_index reg = Some i \<and> i < length call_args0" if "hhvm_is_host_reg reg" for reg
    using hhvm_arg_index_bound [OF that] n l by auto
  from Pack_sink_total [of hhvm_arg_index call_args0 tg cconv b s, OF this]
  obtain st1 call_args where
    p: "Pack tg cconv b arg_sink s (Inr call_args0) = (st1, Inr call_args)"
    by (auto simp: arg_sink_index)
  show ?thesis
  proof (cases tail_call)
    case True
    then show ?thesis
      by (simp add: Call_def a p Let_def split_def)
  next
    case False
    let ?ef = "extract_fields (next_handle st1) b [0..<14] ([], emit_call fn call_args b st1)"
    have c: "Call tg cconv fn b False s =
        (case Unpack tg cconv b (ret_source (fst ?ef)) (snd ?ef) of
           Inl err \<Rightarrow> Inl err | Inr s6 \<Rightarrow> Inr (next_handle st1, s6))"
      unfolding emit_call_def
      by (simp add: Call_def a p Let_def split_def fst_emit if_P [OF h]
          cong del: sum.case_cong_weak)
    have "length (fst ?ef) = 14" by (simp add: extract_fields_length)
    from Unpack_ret_source_total [OF this] obtain s6 where
      "Unpack tg cconv b (ret_source (fst ?ef)) (snd ?ef) = Inr s6" by blast
    with c False show ?thesis by simp
  qed
qed

lemma Return_returns: "\<exists>h s'. Return tg HHVM b s = Inr (h, s')"
proof -
  let ?v0 = "(replicate 14 NullVal)[12 := UndefValue]"
  have "\<exists>i. hhvm_ret_index reg = Some i \<and> i < length ?v0" if "hhvm_is_host_reg reg" for reg
    using hhvm_ret_index_bound [OF that] by auto
  from Pack_sink_total [of hhvm_ret_index ?v0 tg HHVM b s, OF this]
  obtain st1 vals where "Pack tg HHVM b ret_sink s (Inr ?v0) = (st1, Inr vals)"
    by (auto simp: ret_sink_index)
  then show ?thesis by (simp add: Return_def emit_def)
qed

text \<open>
  C10. The instruction pointer is host-mapped, and both index tables give 0 for it. Under
  \<open>HHVM\<close>, \<open>UnpackParams\<close> returns and enters parameter 0 for every registry entry of the
  instruction pointer; \<open>Call\<close> returns for every callee with at least fourteen
  parameters, and \<open>Return\<close> returns; and when the registry names the instruction pointer
  with one facet, the call built by \<open>Call\<close> has the value of the instruction pointer as
  argument 0 (and the raw struct pointer as argument 1), and the aggregate returned by
  \<open>Return\<close> has it as field 0 (and the undefined placeholder as field 12).
\<close>

theorem instruction_pointer_slot_zero:
  "hhvm_is_host_reg IP \<and> hhvm_arg_index IP = Some 0 \<and> hhvm_ret_index IP = Some 0
   \<and> (\<exists>s'. UnpackParams tg HHVM b s = Inr s'
        \<and> (\<forall>(sptr_idx, reg, facet)\<in>set (cpu_struct_entries tg).
              reg = IP \<longrightarrow> facets (GetRegFile s' b) (IP, facet) = Some (Argument 0)))
   \<and> (\<forall>fn tail_call. 14 \<le> arg_size fn \<longrightarrow>
        (\<exists>call s'. Call tg HHVM fn b tail_call s = Inr (call, s')))
   \<and> (\<exists>h s'. Return tg HHVM b s = Inr (h, s'))
   \<and> (\<forall>facet. ip_facet tg facet \<longrightarrow>
        (\<forall>fn tail_call call s'. Call tg HHVM fn b tail_call s = Inr (call, s') \<longrightarrow>
            (\<exists>args cc at tk. (call, CallInst fn args cc at tk) \<in> set (insts s' b)
               \<and> args ! 0 = GetReg (GetRegFile s b) IP facet \<and> args ! 1 = SptrRaw))
        \<and> (\<forall>h s'. Return tg HHVM b s = Inr (h, s') \<longrightarrow>
            (\<exists>vals. (h, AggregateRet vals) \<in> set (insts s' b)
               \<and> vals ! 0 = GetReg (GetRegFile s b) IP facet \<and> vals ! 12 = UndefValue)))"
proof -
  have 1: "\<forall>fn tail_call. 14 \<le> arg_size fn \<longrightarrow>
        (\<exists>call s'. Call tg HHVM fn b tail_call s = Inr (call, s'))"
    using Call_returns [OF refl, of _ tg b _ s] by blast
  have 2: "\<forall>facet. ip_facet tg facet \<longrightarrow>
        (\<forall>fn tail_call call s'. Call tg HHVM fn b tail_call s = Inr (call, s') \<longrightarrow>
            (\<exists>args cc at tk. (call, CallInst fn args cc at tk) \<in> set (insts s' b)
               \<and> args ! 0 = GetReg (GetRegFile s b) IP facet \<and> args ! 1 = SptrRaw))
        \<and> (\<forall>h s'. Return tg HHVM b s = Inr (h, s') \<longrightarrow>
            (\<exists>vals. (h, AggregateRet vals) \<in> set (insts s' b)
               \<and> vals ! 0 = GetReg (GetRegFile s b) IP facet \<and> vals ! 12 = UndefValue))"
    using Call_ip_arg [of tg _ b _ s] Return_ip_field [of tg b s]
    by (intro conjI allI impI) assumption+
  from hhvm_is_host_reg_IP hhvm_index_IP UnpackParams_ip [of tg b s] 1
    Return_returns [of tg b s] 2
  show ?thesis by (intro conjI) assumption+
qed

lemma wf_handles_ex_func: "wf_handles ex_func"
  by (simp add: wf_handles_def ex_func_def)

lemma Call_ex_func:
  "\<exists>s'. Call ex_target_host SPTR ex_callee_void 0 True ex_func = Inr (3, s')
     \<and> insts s' 0 =
        [(0, StoreInst (OtherVal 100) 0), (1, StoreInst (OtherVal 101) 1),
         (2, StoreInst (OtherVal 102) 2),
         (3, CallInst ex_callee_void [SptrRaw] CC_C 7 TCK_MustTail), (4, RetVoid)]"
  by (simp add: Call_def vec_set_def arg_size_def pack_eval emit_def modify_inst_def Let_def
      ex_target_host_def ex_func_def ex_regfile_def ex_callee_void_def)

theorem Call_tail_call_witness:
  "wf_handles ex_func
   \<and> Call ex_target_host SPTR ex_callee_void 0 True ex_func
       = Inr (3, snd (projr (Call ex_target_host SPTR ex_callee_void 0 True ex_func)))
   \<and> insts (snd (projr (Call ex_target_host SPTR ex_callee_void 0 True ex_func))) 0 =
        [(0, StoreInst (OtherVal 100) 0), (1, StoreInst (OtherVal 101) 1),
         (2, StoreInst (OtherVal 102) 2),
         (3, CallInst ex_callee_void [SptrRaw] CC_C 7 TCK_MustTail), (4, RetVoid)]
   \<and> facets (GetRegFile (snd (projr (Call ex_target_host SPTR ex_callee_void 0 True ex_func))) 0)
       = facets (GetRegFile ex_func 0)"
proof -
  let ?C = "Call ex_target_host SPTR ex_callee_void 0 True ex_func"
  from Call_ex_func obtain s' where c: "?C = Inr (3, s')"
    and i: "insts s' 0 =
        [(0, StoreInst (OtherVal 100) 0), (1, StoreInst (OtherVal 101) 1),
         (2, StoreInst (OtherVal 102) 2),
         (3, CallInst ex_callee_void [SptrRaw] CC_C 7 TCK_MustTail), (4, RetVoid)]"
    by blast
  from Call_tail_call [OF c wf_handles_ex_func]
  have "facets (GetRegFile s' 0) = facets (GetRegFile ex_func 0)" by blast
  with c i wf_handles_ex_func show ?thesis by simp
qed

lemma ip_facet_ex: "ip_facet ex_target_host (Facet 0)"
  by (simp add: ip_facet_def ex_target_host_def)

lemma Return_ex_func:
  "\<exists>s'. Return ex_target_host HHVM 0 ex_func = Inr (1, s')
     \<and> insts s' 0 =
        [(0, StoreInst (OtherVal 102) 2),
         (1, AggregateRet [OtherVal 100, NullVal, NullVal, NullVal, NullVal, NullVal, NullVal,
               NullVal, OtherVal 101, NullVal, NullVal, NullVal, UndefValue, NullVal])]"
  by (simp add: Return_def pack_eval emit_def Let_def ret_sink_def hhvm_ret_index_def
      hhvm_ret_indices_def vec_set_def eval_nat_numeral
      ex_target_host_def ex_func_def ex_regfile_def)

lemma FromFunction_ex_callee_hhvm: "FromFunction ex_callee_hhvm = HHVM"
  by (simp add: FromFunction_def ex_callee_hhvm_def arg_size_def i8p_def Let_def)

lemma Call_hhvm_ex_func:
  "\<exists>s'. Call ex_target_host HHVM ex_callee_hhvm 0 True ex_func = Inr (1, s')
     \<and> insts s' 0 =
        [(0, StoreInst (OtherVal 102) 2),
         (1, CallInst ex_callee_hhvm
               [OtherVal 100, SptrRaw, NullVal, NullVal, NullVal, NullVal, NullVal, NullVal,
                NullVal, NullVal, OtherVal 101, NullVal, NullVal, NullVal] CC_HHVM 9 TCK_MustTail),
         (2, Ret (InstrVal 1))]"
  by (simp add: Call_def vec_set_def arg_size_def pack_eval emit_def modify_inst_def Let_def
      arg_sink_def hhvm_arg_index_def hhvm_arg_indices_def eval_nat_numeral
      ex_target_host_def ex_func_def ex_regfile_def ex_callee_hhvm_def)

theorem instruction_pointer_slot_zero_witness:
  "ip_facet ex_target_host (Facet 0)
   \<and> GetReg (GetRegFile ex_func 0) IP (Facet 0) = OtherVal 100
   \<and> Return ex_target_host HHVM 0 ex_func
       = Inr (1, snd (projr (Return ex_target_host HHVM 0 ex_func)))
   \<and> (\<exists>vals. (1, AggregateRet vals)
          \<in> set (insts (snd (projr (Return ex_target_host HHVM 0 ex_func))) 0)
        \<and> vals ! 0 = OtherVal 100 \<and> vals ! 12 = UndefValue)
   \<and> (\<exists>s'. UnpackParams ex_target_host HHVM 0 ex_func = Inr s'
        \<and> facets (GetRegFile s' 0) (IP, Facet 0) = Some (Argument 0))
   \<and> 14 \<le> arg_size ex_callee_hhvm
   \<and> (\<exists>s'. Call ex_target_host HHVM ex_callee_hhvm 0 True ex_func = Inr (1, s')
        \<and> (\<exists>args cc at tk. (1, CallInst ex_callee_hhvm args cc at tk) \<in> set (insts s' 0)
              \<and> args ! 0 = OtherVal 100 \<and> args ! 1 = SptrRaw))
   \<and> (\<exists>call s'. Call ex_target_host HHVM ex_callee_hhvm 0 False ex_func = Inr (call, s')
        \<and> (\<exists>args cc at tk. (call, CallInst ex_callee_hhvm args cc at tk) \<in> set (insts s' 0)
              \<and> args ! 0 = OtherVal 100 \<and> args ! 1 = SptrRaw))"
proof -
  let ?R = "Return ex_target_host HHVM 0 ex_func"
  note T = instruction_pointer_slot_zero [of ex_target_host 0 ex_func]
  have g: "GetReg (GetRegFile ex_func 0) IP (Facet 0) = OtherVal 100"
    by (simp add: GetReg_def ex_func_def ex_regfile_def)
  have n: "14 \<le> arg_size ex_callee_hhvm" by (simp add: arg_size_def ex_callee_hhvm_def)
  from Return_ex_func obtain s' where r: "?R = Inr (1, s')" by blast
  from T ip_facet_ex r
  have "\<exists>vals. (1, AggregateRet vals) \<in> set (insts s' 0)
      \<and> vals ! 0 = GetReg (GetRegFile ex_func 0) IP (Facet 0) \<and> vals ! 12 = UndefValue"
    by blast
  then have 1: "\<exists>vals. (1, AggregateRet vals) \<in> set (insts s' 0)
      \<and> vals ! 0 = OtherVal 100 \<and> vals ! 12 = UndefValue"
    by (simp only: g)
  from T obtain u where u: "UnpackParams ex_target_host HHVM 0 ex_func = Inr u"
    and a: "\<forall>(sptr_idx, reg, facet)\<in>set (cpu_struct_entries ex_target_host).
              reg = IP \<longrightarrow> facets (GetRegFile u 0) (IP, facet) = Some (Argument 0)"
    by blast
  from a have "facets (GetRegFile u 0) (IP, Facet 0) = Some (Argument 0)"
    by (simp add: ex_target_host_def)
  with u have 2: "\<exists>s'. UnpackParams ex_target_host HHVM 0 ex_func = Inr s'
        \<and> facets (GetRegFile s' 0) (IP, Facet 0) = Some (Argument 0)" by blast
  from Call_hhvm_ex_func obtain c where
    c: "Call ex_target_host HHVM ex_callee_hhvm 0 True ex_func = Inr (1, c)" by blast
  from T ip_facet_ex c
  have "\<exists>args cc at tk. (1, CallInst ex_callee_hhvm args cc at tk) \<in> set (insts c 0)
      \<and> args ! 0 = GetReg (GetRegFile ex_func 0) IP (Facet 0) \<and> args ! 1 = SptrRaw"
    by blast
  then have "\<exists>args cc at tk. (1, CallInst ex_callee_hhvm args cc at tk) \<in> set (insts c 0)
      \<and> args ! 0 = OtherVal 100 \<and> args ! 1 = SptrRaw"
    by (simp only: g)
  with c have 3: "\<exists>s'. Call ex_target_host HHVM ex_callee_hhvm 0 True ex_func = Inr (1, s')
        \<and> (\<exists>args cc at tk. (1, CallInst ex_callee_hhvm args cc at tk) \<in> set (insts s' 0)
              \<and> args ! 0 = OtherVal 100 \<and> args ! 1 = SptrRaw)" by blast
  from T n obtain call d where
    d: "Call ex_target_host HHVM ex_callee_hhvm 0 False ex_func = Inr (call, d)" by blast
  from T ip_facet_ex d
  have "\<exists>args cc at tk. (call, CallInst ex_callee_hhvm args cc at tk) \<in> set (insts d 0)
      \<and> args ! 0 = GetReg (GetRegFile ex_func 0) IP (Facet 0) \<and> args ! 1 = SptrRaw"
    by blast
  then have "\<exists>args cc at tk. (call, CallInst ex_callee_hhvm args cc at tk) \<in> set (insts d 0)
      \<and> args ! 0 = OtherVal 100 \<and> args ! 1 = SptrRaw"
    by (simp only: g)
  with d have 4: "\<exists>call s'. Call ex_target_host HHVM ex_callee_hhvm 0 False ex_func = Inr (call, s')
        \<and> (\<exists>args cc at tk. (call, CallInst ex_callee_hhvm args cc at tk) \<in> set (insts s' 0)
              \<and> args ! 0 = OtherVal 100 \<and> args ! 1 = SptrRaw)" by blast
  from r 1 2 3 4 g n ip_facet_ex show ?thesis by simp
qed

end
